theory Spec2Isabelle
  imports Complex_Main "HOL-Library.Multiset" "HOL-Library.Product_Lexorder"
begin

section \<open>Data model (types.ts, constants.ts)\<close>

text \<open>
  A \<open>Coordinate\<close> is the pair of numbers \<open>{x, y}\<close>.  All coordinates of the program are
  small integers, so a JavaScript number is modelled as \<open>int\<close> (the sign of a zero, which
  negation can produce, is invisible to every comparison, index and \<open>JSON.stringify\<close>).
  The fields are called \<open>cx\<close> and \<open>cy\<close>, because \<open>x\<close> and \<open>y\<close> are needed as variables.
\<close>

record Coordinate =
  cx :: int
  cy :: int

text \<open>\<open>PieceDef\<close> without its \<open>color\<close>, a style string that no function of the engine reads.\<close>

record PieceDef =
  p_id :: string
  initialShape :: "Coordinate list"

text \<open>\<open>PlacedPiece\<close>: fields \<open>id, x, y, rotation, isFlipped, isLocked?\<close>.\<close>

record PlacedPiece =
  pid :: string
  px :: int
  py :: int
  rotation :: int
  isFlipped :: bool
  isLocked :: "bool option"

definition GRID_ROWS :: int where
  "GRID_ROWS = 5"

definition GRID_COLS :: int where
  "GRID_COLS = 11"

definition mkC :: "int \<Rightarrow> int \<Rightarrow> Coordinate" where
  "mkC a b = \<lparr>cx = a, cy = b\<rparr>"

definition PIECE_DEFINITIONS :: "PieceDef list" where
  "PIECE_DEFINITIONS =
    [\<lparr>p_id = ''L'', initialShape = [mkC 0 0, mkC 1 0, mkC 0 1]\<rparr>,
     \<lparr>p_id = ''J'', initialShape = [mkC 0 0, mkC 1 0, mkC 2 0, mkC 1 1]\<rparr>,
     \<lparr>p_id = ''I'', initialShape = [mkC 0 0, mkC 1 0, mkC 2 0, mkC 0 1]\<rparr>,
     \<lparr>p_id = ''K'', initialShape = [mkC 0 0, mkC 1 0, mkC 1 1, mkC 2 1]\<rparr>,
     \<lparr>p_id = ''A'', initialShape = [mkC 0 0, mkC 1 0, mkC 0 1, mkC 1 1, mkC 0 2]\<rparr>,
     \<lparr>p_id = ''B'', initialShape = [mkC 0 0, mkC 0 1, mkC 1 1, mkC 1 2, mkC 2 2]\<rparr>,
     \<lparr>p_id = ''C'', initialShape = [mkC 0 0, mkC 1 0, mkC 0 1, mkC 0 2, mkC 1 2]\<rparr>,
     \<lparr>p_id = ''D'', initialShape = [mkC 0 0, mkC 1 0, mkC 2 0, mkC 3 0, mkC 0 1]\<rparr>,
     \<lparr>p_id = ''E'', initialShape = [mkC 0 0, mkC 1 0, mkC 2 0, mkC 3 0, mkC 1 1]\<rparr>,
     \<lparr>p_id = ''F'', initialShape = [mkC 0 0, mkC 1 0, mkC 2 0, mkC 0 1, mkC 0 2]\<rparr>,
     \<lparr>p_id = ''G'', initialShape = [mkC 1 0, mkC 2 0, mkC 0 1, mkC 1 1, mkC 1 2]\<rparr>,
     \<lparr>p_id = ''H'', initialShape = [mkC 0 0, mkC 1 0, mkC 1 1, mkC 2 1, mkC 3 1]\<rparr>]"

section \<open>Geometry helpers (gameLogic.ts)\<close>

text \<open>
  \<open>rotatePoint\<close>: the loop \<open>for (let i = 0; i < times; i++)\<close> with the counter explicit.
  The bound \<open>times\<close> (here \<open>cnt\<close>) is a quotient, hence a rational.
\<close>

function rotateFrom :: "nat \<Rightarrow> rat \<Rightarrow> Coordinate \<Rightarrow> Coordinate" where
  "rotateFrom i cnt p =
     (if of_nat i < cnt then rotateFrom (Suc i) cnt \<lparr>cx = - cy p, cy = cx p\<rparr> else p)"
  by pat_completeness auto
termination
proof (relation "measure (\<lambda>(i, cnt, p). nat \<lceil>cnt\<rceil> - i)")
  show "wf (measure (\<lambda>(i, cnt, p). nat \<lceil>cnt\<rceil> - i))"
    by simp
next
  fix i :: nat and cnt :: rat and p :: Coordinate
  assume "of_nat i < cnt"
  then have "int i < \<lceil>cnt\<rceil>"
    by (simp add: less_ceiling_iff)
  then show "((Suc i, cnt, \<lparr>cx = - cy p, cy = cx p\<rparr>), (i, cnt, p))
      \<in> measure (\<lambda>(i, cnt, p). nat \<lceil>cnt\<rceil> - i)"
    by simp
qed

declare rotateFrom.simps [simp del]

definition rotatePoint :: "Coordinate \<Rightarrow> rat \<Rightarrow> Coordinate" where
  "rotatePoint point cnt = rotateFrom 0 cnt point"

text \<open>JavaScript's \<open>%\<close> on integers: the remainder takes the sign of the dividend.\<close>

definition jsRem :: "int \<Rightarrow> int \<Rightarrow> int" where
  "jsRem a b = sgn a * (\<bar>a\<bar> mod \<bar>b\<bar>)"

text \<open>\<open>PIECE_DEFINITIONS.find((p) => p.id === p_id)\<close>.\<close>

definition findDef :: "string \<Rightarrow> PieceDef option" where
  "findDef i = find (\<lambda>p. p_id p = i) PIECE_DEFINITIONS"

definition getTransformedCoordinates :: "string \<Rightarrow> int \<Rightarrow> bool \<Rightarrow> Coordinate list" where
  "getTransformedCoordinates i rot flipped =
     (case findDef i of
        None \<Rightarrow> []
      | Some def \<Rightarrow>
          (let coords = map (\<lambda>p. \<lparr>cx = (if flipped then - cx p else cx p), cy = cy p\<rparr>)
                            (initialShape def);
               rotationCount = of_int (jsRem rot 360) / 90
           in map (\<lambda>p. rotatePoint p rotationCount) coords))"

section \<open>Board (gameLogic.ts)\<close>

text \<open>
  A board is \<open>(string | null)[][]\<close>, indexed \<open>board[y][x]\<close>.  The boards of the program are
  built by \<open>getBoardGrid\<close> with \<open>GRID_ROWS\<close> rows of \<open>GRID_COLS\<close> cells; the theorems about
  an arbitrary board assume this shape, the only one for which every read below is in range.
\<close>

type_synonym board = "string option list list"

definition wf_board :: "board \<Rightarrow> bool" where
  "wf_board b = (int (length b) = GRID_ROWS \<and> list_all (\<lambda>row. int (length row) = GRID_COLS) b)"

text \<open>
  The body of the loop of \<open>isValidPlacement\<close>, with its two early returns.  The guard
  \<open>currentBoard &&\<close> is true of every array, so it does not appear.
\<close>

fun checkCoords :: "int \<Rightarrow> int \<Rightarrow> board \<Rightarrow> Coordinate list \<Rightarrow> bool" where
  "checkCoords gridX gridY currentBoard [] = True"
| "checkCoords gridX gridY currentBoard (coord # rest) =
     (let targetX = gridX + cx coord; targetY = gridY + cy coord in
      if targetX < 0 \<or> targetX \<ge> GRID_COLS \<or> targetY < 0 \<or> targetY \<ge> GRID_ROWS then False
      else if currentBoard ! nat targetY ! nat targetX \<noteq> None then False
      else checkCoords gridX gridY currentBoard rest)"

definition isValidPlacement ::
  "string \<Rightarrow> int \<Rightarrow> int \<Rightarrow> int \<Rightarrow> bool \<Rightarrow> board \<Rightarrow> bool" where
  "isValidPlacement i gridX gridY rot flipped currentBoard =
     checkCoords gridX gridY currentBoard (getTransformedCoordinates i rot flipped)"

definition emptyBoard :: board where
  "emptyBoard = replicate (nat GRID_ROWS) (replicate (nat GRID_COLS) None)"

text \<open>\<open>getBoardGrid\<close>: each in-bounds cell of each piece is written, the others are skipped.\<close>

definition absCells :: "PlacedPiece \<Rightarrow> (int \<times> int) list" where
  "absCells piece =
     map (\<lambda>c. (px piece + cx c, py piece + cy c))
         (getTransformedCoordinates (pid piece) (rotation piece) (isFlipped piece))"

definition writeCell :: "string \<Rightarrow> board \<Rightarrow> int \<times> int \<Rightarrow> board" where
  "writeCell i grid c =
     (case c of (a, b) \<Rightarrow>
        if a \<ge> 0 \<and> a < GRID_COLS \<and> b \<ge> 0 \<and> b < GRID_ROWS
        then grid[nat b := (grid ! nat b)[nat a := Some i]]
        else grid)"

definition getBoardGrid :: "PlacedPiece list \<Rightarrow> board" where
  "getBoardGrid placedPieces =
     foldl (\<lambda>grid piece. foldl (writeCell (pid piece)) grid (absCells piece))
           emptyBoard placedPieces"

section \<open>Variation cache (gameLogic.ts)\<close>

text \<open>
  The exceptions.  Reading element 0 of an empty array gives \<open>undefined\<close>, and reading a
  field of it, or iterating over \<open>undefined\<close>, throws a \<open>TypeError\<close>.  A call for which the
  call stack has no room throws a \<open>RangeError\<close>.  Nothing in the program catches either.
\<close>

datatype error = TypeError | RangeError

record PieceVariation =
  v_rotation :: int
  v_isFlipped :: bool
  coords :: "Coordinate list"

text \<open>
  \<open>[...coords].sort((a, b) => a.y - b.y || a.x - b.x)\<close>: a stable sort by \<open>y\<close>, then \<open>x\<close>.
\<close>

definition sortCoords :: "Coordinate list \<Rightarrow> Coordinate list" where
  "sortCoords cs = sort_key (\<lambda>c. (cy c, cx c)) cs"

definition normalizeCoords :: "Coordinate list \<Rightarrow> error + Coordinate list" where
  "normalizeCoords cs =
     (case sortCoords cs of
        [] \<Rightarrow> Inl TypeError
      | c0 # _ \<Rightarrow> Inr (map (\<lambda>c. \<lparr>cx = cx c - cx c0, cy = cy c - cy c0\<rparr>) (sortCoords cs)))"

text \<open>A \<open>forEach\<close> whose body may throw: the first exception ends the loop.\<close>

fun foldE :: "('s \<Rightarrow> 'a \<Rightarrow> error + 's) \<Rightarrow> 's \<Rightarrow> 'a list \<Rightarrow> error + 's" where
  "foldE f s [] = Inr s"
| "foldE f s (a # as) = (case f s a of Inl e \<Rightarrow> Inl e | Inr s' \<Rightarrow> foldE f s' as)"

text \<open>The nested loops over \<open>flips = [false, true]\<close> and \<open>rotations = [0, 90, 180, 270]\<close>.\<close>

definition orientations :: "(bool \<times> int) list" where
  "orientations =
     concat (map (\<lambda>flipped. map (\<lambda>rot. (flipped, rot)) [0, 90, 180, 270]) [False, True])"

text \<open>
  The body of the inner loop.  The state is \<open>seenShapes\<close> and \<open>variations\<close>; a signature
  \<open>JSON.stringify(normCoords)\<close> is modelled by the coordinate sequence itself, which it
  determines.
\<close>

fun addVariation ::
  "string \<Rightarrow> Coordinate list list \<times> PieceVariation list \<Rightarrow> bool \<times> int
     \<Rightarrow> error + Coordinate list list \<times> PieceVariation list" where
  "addVariation i (seenShapes, variations) (flipped, rot) =
     (case normalizeCoords (getTransformedCoordinates i rot flipped) of
        Inl e \<Rightarrow> Inl e
      | Inr normCoords \<Rightarrow>
          if normCoords \<notin> set seenShapes
          then Inr (seenShapes @ [normCoords],
                    variations @
                      [\<lparr>v_rotation = rot, v_isFlipped = flipped, coords = normCoords\<rparr>])
          else Inr (seenShapes, variations))"

definition variationsOf :: "PieceDef \<Rightarrow> error + PieceVariation list" where
  "variationsOf piece =
     (case foldE (addVariation (p_id piece)) ([], []) orientations of
        Inl e \<Rightarrow> Inl e
      | Inr (seenShapes, variations) \<Rightarrow> Inr variations)"

text \<open>
  \<open>xs.sort(() => Math.random() - 0.5)\<close> rearranges \<open>xs\<close> in an order that depends on the
  random numbers drawn.  The outcome of such a call is a parameter of the model, of which
  only this is known: it is a rearrangement of its argument.
\<close>

definition shuffleOutcome :: "('a list \<Rightarrow> 'a list) \<Rightarrow> bool" where
  "shuffleOutcome f = (\<forall>xs. mset (f xs) = mset xs)"

text \<open>
  \<open>PRECOMPUTED_VARIATIONS\<close> is a dictionary from piece ids to variation lists.
  \<open>precomputeVariations\<close> fills it once; \<open>rnd i\<close> is the outcome of the shuffle of the
  variations of piece \<open>i\<close>.
\<close>

type_synonym table = "string \<rightharpoonup> PieceVariation list"

definition precomputeVariations ::
  "(string \<Rightarrow> PieceVariation list \<Rightarrow> PieceVariation list) \<Rightarrow> error + table" where
  "precomputeVariations rnd =
     foldE (\<lambda>tbl piece. case variationsOf piece of
                Inl e \<Rightarrow> Inl e
              | Inr variations \<Rightarrow> Inr (tbl(p_id piece \<mapsto> rnd (p_id piece) variations)))
       Map.empty PIECE_DEFINITIONS"

definition validTable :: "table \<Rightarrow> bool" where
  "validTable V = (\<exists>rnd. (\<forall>i. shuffleOutcome (rnd i)) \<and> precomputeVariations rnd = Inr V)"

section \<open>Backtracking solver (gameLogic.ts)\<close>

text \<open>
  The occupancy grid is \<open>boolean[][]\<close>, indexed \<open>grid[y][x]\<close>; \<open>generateValidBoard\<close>, the only
  caller of the solver, allocates \<open>GRID_ROWS\<close> rows of \<open>GRID_COLS\<close> cells.
\<close>

type_synonym grid = "bool list list"

definition wf_grid :: "grid \<Rightarrow> bool" where
  "wf_grid g = (int (length g) = GRID_ROWS \<and> list_all (\<lambda>row. int (length row) = GRID_COLS) g)"

text \<open>The scan for the first empty cell, rows from the top, each row from the left.\<close>

definition scanOrder :: "(int \<times> int) list" where
  "scanOrder = concat (map (\<lambda>b. map (\<lambda>a. (a, b)) [0..GRID_COLS - 1]) [0..GRID_ROWS - 1])"

definition findEmpty :: "grid \<Rightarrow> (int \<times> int) option" where
  "findEmpty grid = find (\<lambda>(a, b). \<not> grid ! nat b ! nat a) scanOrder"

text \<open>The loop that sets \<open>fits\<close>.\<close>

fun fits :: "grid \<Rightarrow> int \<Rightarrow> int \<Rightarrow> Coordinate list \<Rightarrow> bool" where
  "fits grid emptyX emptyY [] = True"
| "fits grid emptyX emptyY (c # cs) =
     (let tx = emptyX + cx c; ty = emptyY + cy c in
      if tx < 0 \<or> tx \<ge> GRID_COLS \<or> ty < 0 \<or> ty \<ge> GRID_ROWS \<or> grid ! nat ty ! nat tx
      then False
      else fits grid emptyX emptyY cs)"

text \<open>
  The two loops \<open>grid[emptyY + c.y][emptyX + c.x] = b\<close>, placing (\<open>b = true\<close>) and
  backtracking (\<open>b = false\<close>).
\<close>

definition setCell :: "grid \<Rightarrow> int \<Rightarrow> int \<Rightarrow> bool \<Rightarrow> grid" where
  "setCell grid tx ty b = grid[nat ty := (grid ! nat ty)[nat tx := b]]"

definition markCells :: "grid \<Rightarrow> int \<Rightarrow> int \<Rightarrow> Coordinate list \<Rightarrow> bool \<Rightarrow> grid" where
  "markCells grid emptyX emptyY cs b =
     foldl (\<lambda>g c. setCell g (emptyX + cx c) (emptyY + cy c) b) grid cs"

text \<open>The record built on success, from the anchor of the raw shape.\<close>

definition placedPieceOf :: "string \<Rightarrow> int \<Rightarrow> int \<Rightarrow> PieceVariation \<Rightarrow> error + PlacedPiece" where
  "placedPieceOf pieceId emptyX emptyY v =
     (case sortCoords (getTransformedCoordinates pieceId (v_rotation v) (v_isFlipped v)) of
        [] \<Rightarrow> Inl TypeError
      | anchor # _ \<Rightarrow>
          Inr \<lparr>pid = pieceId, px = emptyX - cx anchor, py = emptyY - cy anchor,
               rotation = v_rotation v, isFlipped = v_isFlipped v, isLocked = Some True\<rparr>)"

text \<open>
  The rank of a call of the solver (left) or of its loop over the variations (right): the
  number of remaining pieces, then the number of variations still to try.
\<close>

fun callRank ::
  "table \<times> grid \<times> string list + table \<times> grid \<times> string \<times> string list \<times> int \<times> int \<times> PieceVariation list
     \<Rightarrow> nat \<times> nat" where
  "callRank (Inl (V, grid, remainingPieceIds)) = (length remainingPieceIds, 0)"
| "callRank (Inr (V, grid, pieceId, restIds, emptyX, emptyY, vs)) = (length restIds, Suc (length vs))"

text \<open>
  \<open>solveRecursively\<close> mutates the grid it is given, so the model returns the grid with the
  result.  \<open>tryVariations\<close> is its loop \<open>for (const v of variations)\<close>.
\<close>

function (domintros) solveRecursively ::
    "table \<Rightarrow> grid \<Rightarrow> string list \<Rightarrow> error + PlacedPiece list option \<times> grid"
  and tryVariations ::
    "table \<Rightarrow> grid \<Rightarrow> string \<Rightarrow> string list \<Rightarrow> int \<Rightarrow> int \<Rightarrow> PieceVariation list
       \<Rightarrow> error + PlacedPiece list option \<times> grid"
where
  "solveRecursively V grid [] = Inr (Some [], grid)"
| "solveRecursively V grid (pieceId # restIds) =
     (case findEmpty grid of
        None \<Rightarrow> Inr (Some [], grid)
      | Some (emptyX, emptyY) \<Rightarrow>
          (case V pieceId of
             None \<Rightarrow> Inl TypeError
           | Some variations \<Rightarrow> tryVariations V grid pieceId restIds emptyX emptyY variations))"
| "tryVariations V grid pieceId restIds emptyX emptyY [] = Inr (None, grid)"
| "tryVariations V grid pieceId restIds emptyX emptyY (v # vs) =
     (if fits grid emptyX emptyY (coords v) then
        (case solveRecursively V (markCells grid emptyX emptyY (coords v) True) restIds of
           Inl e \<Rightarrow> Inl e
         | Inr (Some result, grid') \<Rightarrow>
             (case placedPieceOf pieceId emptyX emptyY v of
                Inl e \<Rightarrow> Inl e
              | Inr p \<Rightarrow> Inr (Some (p # result), grid'))
         | Inr (None, grid') \<Rightarrow>
             tryVariations V (markCells grid' emptyX emptyY (coords v) False)
               pieceId restIds emptyX emptyY vs)
      else tryVariations V grid pieceId restIds emptyX emptyY vs)"
  by pat_completeness auto

termination
  by (relation "inv_image (less_than <*lex*> less_than) callRank") auto

definition emptyGrid :: grid where
  "emptyGrid = replicate (nat GRID_ROWS) (replicate (nat GRID_COLS) False)"

section \<open>Cells of a grid\<close>

text \<open>
  The cells inside the grid, the set of occupied cells of an occupancy grid, and the cells
  that a coordinate list covers when its origin is put at \<open>(emptyX, emptyY)\<close>.
\<close>

definition inBounds :: "int \<times> int \<Rightarrow> bool" where
  "inBounds c = (case c of (a, b) \<Rightarrow> 0 \<le> a \<and> a < GRID_COLS \<and> 0 \<le> b \<and> b < GRID_ROWS)"

definition occ :: "grid \<Rightarrow> (int \<times> int) set" where
  "occ g = {c. inBounds c \<and> g ! nat (snd c) ! nat (fst c)}"

definition cellsAt :: "int \<Rightarrow> int \<Rightarrow> Coordinate list \<Rightarrow> (int \<times> int) list" where
  "cellsAt emptyX emptyY cs = map (\<lambda>c. (emptyX + cx c, emptyY + cy c)) cs"

section \<open>Level generator (gameLogic.ts)\<close>

text \<open>
  \<open>generateValidBoard\<close> calls itself when the solver returns \<open>null\<close>, and every such call is
  nested in the one before.  \<open>shuffleIds k\<close> is the outcome of the shuffle of the piece ids
  in the call number \<open>k\<close>.  \<open>stackLeft\<close> is the number of nested calls of
  \<open>generateValidBoard\<close> for which the call stack still has room: a call made when there is
  none throws the engine's \<open>RangeError\<close>, which reaches the caller.  The program itself
  counts nothing.
\<close>

fun generateValidBoard ::
  "table \<Rightarrow> (nat \<Rightarrow> string list \<Rightarrow> string list) \<Rightarrow> nat \<Rightarrow> nat \<Rightarrow> error + PlacedPiece list"
where
  "generateValidBoard V shuffleIds attempt 0 = Inl RangeError"
| "generateValidBoard V shuffleIds attempt (Suc stackLeft) =
     (case solveRecursively V emptyGrid (shuffleIds attempt (map p_id PIECE_DEFINITIONS)) of
        Inl e \<Rightarrow> Inl e
      | Inr (Some solution, grid') \<Rightarrow> Inr solution
      | Inr (None, grid') \<Rightarrow> generateValidBoard V shuffleIds (Suc attempt) stackLeft)"




section \<open>The specification's description of the transform\<close>

text \<open>
  Written from the specification, to be compared with \<open>getTransformedCoordinates\<close>:
  negate \<open>x\<close> when flipped, then apply \<open>(x, y) \<mapsto> (-y, x)\<close> \<open>rotation/90\<close> times.
\<close>

definition quarterTurn :: "Coordinate \<Rightarrow> Coordinate" where
  "quarterTurn p = \<lparr>cx = - cy p, cy = cx p\<rparr>"

definition specTransform :: "Coordinate list \<Rightarrow> int \<Rightarrow> bool \<Rightarrow> Coordinate list" where
  "specTransform shape rot flipped =
     map (\<lambda>p. (quarterTurn ^^ nat (rot div 90))
                 \<lparr>cx = (if flipped then - cx p else cx p), cy = cy p\<rparr>) shape"

section \<open>Notions used in the statements\<close>

text \<open>The normalized shape of piece \<open>i\<close> in an orientation, as \<open>precomputeVariations\<close> computes it.\<close>

definition normShape :: "string \<Rightarrow> bool \<times> int \<Rightarrow> error + Coordinate list" where
  "normShape i orientation =
     (case orientation of (flipped, rot) \<Rightarrow>
        normalizeCoords (getTransformedCoordinates i rot flipped))"

text \<open>The number of cells of piece \<open>i\<close>.\<close>

definition pieceSize :: "string \<Rightarrow> nat" where
  "pieceSize i = (case findDef i of None \<Rightarrow> 0 | Some d \<Rightarrow> length (initialShape d))"

text \<open>
  The placed pieces \<open>sol\<close> tile the part of the grid that is free in \<open>g\<close> and occupied in \<open>g'\<close>:
  no cell is listed twice, every cell is inside the grid and free in \<open>g\<close>, and \<open>g'\<close> is \<open>g\<close>
  with these cells occupied.
\<close>

definition tiling :: "grid \<Rightarrow> PlacedPiece list \<Rightarrow> grid \<Rightarrow> bool" where
  "tiling g sol g' =
     (distinct (concat (map absCells sol))
      \<and> (\<forall>c \<in> set (concat (map absCells sol)). inBounds c \<and> c \<notin> occ g)
      \<and> occ g' = occ g \<union> set (concat (map absCells sol)))"

text \<open>
  \<open>p\<close> is the record that the search builds when it places the variation \<open>v\<close> of \<open>p\<close>'s piece
  at \<open>(emptyX, emptyY)\<close>, the first empty cell of the grid \<open>gi\<close>.
\<close>

definition searchStep ::
  "table \<Rightarrow> grid \<Rightarrow> int \<Rightarrow> int \<Rightarrow> PieceVariation \<Rightarrow> PlacedPiece \<Rightarrow> bool" where
  "searchStep V gi emptyX emptyY v p =
     (wf_grid gi \<and> findEmpty gi = Some (emptyX, emptyY)
      \<and> (\<exists>vs. V (pid p) = Some vs \<and> v \<in> set vs)
      \<and> fits gi emptyX emptyY (coords v)
      \<and> placedPieceOf (pid p) emptyX emptyY v = Inr p)"

text \<open>
  The grids of a successful search, from the grid \<open>g\<close> it is given to the grid \<open>g'\<close> it
  returns, along the records \<open>sol\<close> it returns: the first record is built from a variation
  placed at the first empty cell of \<open>g\<close>, the cells marked for it (\<open>cellsAt\<close>) are the cells
  that replaying the record gives (\<open>absCells\<close>), and the other records continue from \<open>g\<close>
  with these cells marked; after the last record the grid is \<open>g'\<close>.
\<close>

fun searchChain :: "table \<Rightarrow> grid \<Rightarrow> PlacedPiece list \<Rightarrow> grid \<Rightarrow> bool" where
  "searchChain V g [] g' = (g' = g)"
| "searchChain V g (p # ps) g' =
     (\<exists>emptyX emptyY v.
        searchStep V g emptyX emptyY v p
      \<and> set (absCells p) = set (cellsAt emptyX emptyY (coords v))
      \<and> searchChain V (markCells g emptyX emptyY (coords v) True) ps g')"

text \<open>What a successful search from grid \<open>g\<close> with the ids \<open>ids\<close> has established.\<close>

definition solved :: "table \<Rightarrow> grid \<Rightarrow> string list \<Rightarrow> PlacedPiece list \<Rightarrow> grid \<Rightarrow> bool" where
  "solved V g ids sol g' =
     (searchChain V g sol g'
      \<and> tiling g sol g'
      \<and> (\<exists>rest. ids = map pid sol @ rest \<and> (rest = [] \<or> occ g' = {c. inBounds c})))"

section \<open>Example inputs\<close>

text \<open>A board with one piece placed, as \<open>generateChallenge\<close>'s fallback places piece \<open>C\<close>.\<close>

definition boardWithC :: board where
  "boardWithC =
     getBoardGrid
       [\<lparr>pid = ''C'', px = 1, py = 1, rotation = 0, isFlipped = False, isLocked = None\<rparr>]"

text \<open>
  The variation lists of the catalog in the order in which \<open>precomputeVariations\<close> finds
  them, that is, the cache when no shuffle changes an order.
\<close>

definition mkV :: "int \<Rightarrow> bool \<Rightarrow> (int \<times> int) list \<Rightarrow> PieceVariation" where
  "mkV rot flipped cells =
     \<lparr>v_rotation = rot, v_isFlipped = flipped, coords = map (\<lambda>(a, b). mkC a b) cells\<rparr>"

definition catalogVariations :: "(string \<times> PieceVariation list) list" where
  "catalogVariations =
     [(''L'',
        [mkV 0 False [(0, 0), (1, 0), (0, 1)],
         mkV 90 False [(0, 0), (1, 0), (1, 1)],
         mkV 180 False [(0, 0), (- 1, 1), (0, 1)],
         mkV 270 False [(0, 0), (0, 1), (1, 1)]]),
      (''J'',
        [mkV 0 False [(0, 0), (1, 0), (2, 0), (1, 1)],
         mkV 90 False [(0, 0), (- 1, 1), (0, 1), (0, 2)],
         mkV 180 False [(0, 0), (- 1, 1), (0, 1), (1, 1)],
         mkV 270 False [(0, 0), (0, 1), (1, 1), (0, 2)]]),
      (''I'',
        [mkV 0 False [(0, 0), (1, 0), (2, 0), (0, 1)],
         mkV 90 False [(0, 0), (1, 0), (1, 1), (1, 2)],
         mkV 180 False [(0, 0), (- 2, 1), (- 1, 1), (0, 1)],
         mkV 270 False [(0, 0), (0, 1), (0, 2), (1, 2)],
         mkV 0 True [(0, 0), (1, 0), (2, 0), (2, 1)],
         mkV 90 True [(0, 0), (0, 1), (- 1, 2), (0, 2)],
         mkV 180 True [(0, 0), (0, 1), (1, 1), (2, 1)],
         mkV 270 True [(0, 0), (1, 0), (0, 1), (0, 2)]]),
      (''K'',
        [mkV 0 False [(0, 0), (1, 0), (1, 1), (2, 1)],
         mkV 90 False [(0, 0), (- 1, 1), (0, 1), (- 1, 2)],
         mkV 0 True [(0, 0), (1, 0), (- 1, 1), (0, 1)],
         mkV 90 True [(0, 0), (0, 1), (1, 1), (1, 2)]]),
      (''A'',
        [mkV 0 False [(0, 0), (1, 0), (0, 1), (1, 1), (0, 2)],
         mkV 90 False [(0, 0), (1, 0), (2, 0), (1, 1), (2, 1)],
         mkV 180 False [(0, 0), (- 1, 1), (0, 1), (- 1, 2), (0, 2)],
         mkV 270 False [(0, 0), (1, 0), (0, 1), (1, 1), (2, 1)],
         mkV 0 True [(0, 0), (1, 0), (0, 1), (1, 1), (1, 2)],
         mkV 90 True [(0, 0), (1, 0), (- 1, 1), (0, 1), (1, 1)],
         mkV 180 True [(0, 0), (0, 1), (1, 1), (0, 2), (1, 2)],
         mkV 270 True [(0, 0), (1, 0), (2, 0), (0, 1), (1, 1)]]),
      (''B'',
        [mkV 0 False [(0, 0), (0, 1), (1, 1), (1, 2), (2, 2)],
         mkV 90 False [(0, 0), (1, 0), (- 1, 1), (0, 1), (- 1, 2)],
         mkV 180 False [(0, 0), (1, 0), (1, 1), (2, 1), (2, 2)],
         mkV 270 False [(0, 0), (- 1, 1), (0, 1), (- 2, 2), (- 1, 2)]]),
      (''C'',
        [mkV 0 False [(0, 0), (1, 0), (0, 1), (0, 2), (1, 2)],
         mkV 90 False [(0, 0), (1, 0), (2, 0), (0, 1), (2, 1)],
         mkV 180 False [(0, 0), (1, 0), (1, 1), (0, 2), (1, 2)],
         mkV 270 False [(0, 0), (2, 0), (0, 1), (1, 1), (2, 1)]]),
      (''D'',
        [mkV 0 False [(0, 0), (1, 0), (2, 0), (3, 0), (0, 1)],
         mkV 90 False [(0, 0), (1, 0), (1, 1), (1, 2), (1, 3)],
         mkV 180 False [(0, 0), (- 3, 1), (- 2, 1), (- 1, 1), (0, 1)],
         mkV 270 False [(0, 0), (0, 1), (0, 2), (0, 3), (1, 3)],
         mkV 0 True [(0, 0), (1, 0), (2, 0), (3, 0), (3, 1)],
         mkV 90 True [(0, 0), (0, 1), (0, 2), (- 1, 3), (0, 3)],
         mkV 180 True [(0, 0), (0, 1), (1, 1), (2, 1), (3, 1)],
         mkV 270 True [(0, 0), (1, 0), (0, 1), (0, 2), (0, 3)]]),
      (''E'',
        [mkV 0 False [(0, 0), (1, 0), (2, 0), (3, 0), (1, 1)],
         mkV 90 False [(0, 0), (- 1, 1), (0, 1), (0, 2), (0, 3)],
         mkV 180 False [(0, 0), (- 2, 1), (- 1, 1), (0, 1), (1, 1)],
         mkV 270 False [(0, 0), (0, 1), (0, 2), (1, 2), (0, 3)],
         mkV 0 True [(0, 0), (1, 0), (2, 0), (3, 0), (2, 1)],
         mkV 90 True [(0, 0), (0, 1), (- 1, 2), (0, 2), (0, 3)],
         mkV 180 True [(0, 0), (- 1, 1), (0, 1), (1, 1), (2, 1)],
         mkV 270 True [(0, 0), (0, 1), (1, 1), (0, 2), (0, 3)]]),
      (''F'',
        [mkV 0 False [(0, 0), (1, 0), (2, 0), (0, 1), (0, 2)],
         mkV 90 False [(0, 0), (1, 0), (2, 0), (2, 1), (2, 2)],
         mkV 180 False [(0, 0), (0, 1), (- 2, 2), (- 1, 2), (0, 2)],
         mkV 270 False [(0, 0), (0, 1), (0, 2), (1, 2), (2, 2)]]),
      (''G'',
        [mkV 0 False [(0, 0), (1, 0), (- 1, 1), (0, 1), (0, 2)],
         mkV 90 False [(0, 0), (- 1, 1), (0, 1), (1, 1), (1, 2)],
         mkV 180 False [(0, 0), (0, 1), (1, 1), (- 1, 2), (0, 2)],
         mkV 270 False [(0, 0), (0, 1), (1, 1), (2, 1), (1, 2)],
         mkV 0 True [(0, 0), (1, 0), (1, 1), (2, 1), (1, 2)],
         mkV 90 True [(0, 0), (- 2, 1), (- 1, 1), (0, 1), (- 1, 2)],
         mkV 180 True [(0, 0), (- 1, 1), (0, 1), (0, 2), (1, 2)],
         mkV 270 True [(0, 0), (- 1, 1), (0, 1), (1, 1), (- 1, 2)]]),
      (''H'',
        [mkV 0 False [(0, 0), (1, 0), (1, 1), (2, 1), (3, 1)],
         mkV 90 False [(0, 0), (- 1, 1), (0, 1), (- 1, 2), (- 1, 3)],
         mkV 180 False [(0, 0), (1, 0), (2, 0), (2, 1), (3, 1)],
         mkV 270 False [(0, 0), (0, 1), (- 1, 2), (0, 2), (- 1, 3)],
         mkV 0 True [(0, 0), (1, 0), (- 2, 1), (- 1, 1), (0, 1)],
         mkV 90 True [(0, 0), (0, 1), (0, 2), (1, 2), (1, 3)],
         mkV 180 True [(0, 0), (1, 0), (2, 0), (- 1, 1), (0, 1)],
         mkV 270 True [(0, 0), (0, 1), (1, 1), (1, 2), (1, 3)]])]"


text \<open>A shuffle whose outcome is \<open>target\<close> whenever that is a rearrangement of the argument.\<close>

definition shuffleTo :: "'a list \<Rightarrow> 'a list \<Rightarrow> 'a list" where
  "shuffleTo target xs = (if mset xs = mset target then target else xs)"

text \<open>An order of the pieces for which the solver finds no solution, and one for which it does.\<close>

definition badOrder :: "string list" where
  "badOrder = [''B'', ''C'', ''L'', ''F'', ''D'', ''I'', ''K'', ''J'', ''A'', ''E'', ''G'', ''H'']"

definition goodOrder :: "string list" where
  "goodOrder = [''G'', ''F'', ''E'', ''H'', ''K'', ''B'', ''D'', ''A'', ''I'', ''C'', ''L'', ''J'']"

definition mkP :: "string \<Rightarrow> int \<Rightarrow> int \<Rightarrow> int \<Rightarrow> bool \<Rightarrow> PlacedPiece" where
  "mkP i a b rot flipped =
     \<lparr>pid = i, px = a, py = b, rotation = rot, isFlipped = flipped, isLocked = Some True\<rparr>"

definition goodSolution :: "PlacedPiece list" where
  "goodSolution =
     [mkP ''G'' 0 2 270 False, mkP ''F'' 3 0 90 False, mkP ''E'' 4 0 0 False,
      mkP ''H'' 7 1 180 True, mkP ''K'' 5 3 90 True, mkP ''B'' 6 1 0 False,
      mkP ''D'' 10 1 90 False, mkP ''A'' 0 4 180 True, mkP ''I'' 2 4 270 False,
      mkP ''C'' 9 4 180 False, mkP ''L'' 4 3 90 False, mkP ''J'' 7 4 180 False]"

definition fullGrid :: grid where
  "fullGrid = replicate (nat GRID_ROWS) (replicate (nat GRID_COLS) True)"

text \<open>
  Sequences of shuffle outcomes for the successive calls of \<open>generateValidBoard\<close>:
  \<open>badUntil n\<close> gives the unsolvable order \<open>n\<close> times and the solvable one from then on.
\<close>

definition alwaysBad :: "nat \<Rightarrow> string list \<Rightarrow> string list" where
  "alwaysBad k = shuffleTo badOrder"

definition alwaysGood :: "nat \<Rightarrow> string list \<Rightarrow> string list" where
  "alwaysGood k = shuffleTo goodOrder"

definition badUntil :: "nat \<Rightarrow> nat \<Rightarrow> string list \<Rightarrow> string list" where
  "badUntil n k = (if k < n then shuffleTo badOrder else shuffleTo goodOrder)"

text \<open>Piece \<open>K\<close> of the catalog, and a shuffle that reverses every variation list.\<close>

definition pieceK :: PieceDef where
  "pieceK = \<lparr>p_id = ''K'', initialShape = [mkC 0 0, mkC 1 0, mkC 1 1, mkC 2 1]\<rparr>"

definition reverseAll :: "string \<Rightarrow> PieceVariation list \<Rightarrow> PieceVariation list" where
  "reverseAll i = rev"

section \<open>Facts about the geometry\<close>

lemma findDef_unknown:
  "i \<notin> set (map p_id PIECE_DEFINITIONS) \<Longrightarrow> findDef i = None"
  by (auto simp: findDef_def find_None_iff)

lemma rotateFrom_funpow:
  "rotateFrom i cnt p = (quarterTurn ^^ (nat \<lceil>cnt\<rceil> - i)) p"
proof (induction i cnt p rule: rotateFrom.induct)
  case (1 i cnt p)
  show ?case
  proof (cases "of_nat i < cnt")
    case True
    then have "int i < \<lceil>cnt\<rceil>"
      by (simp add: less_ceiling_iff)
    then have k: "nat \<lceil>cnt\<rceil> - i = Suc (nat \<lceil>cnt\<rceil> - Suc i)"
      by linarith
    have ih: "rotateFrom (Suc i) cnt (quarterTurn p)
        = (quarterTurn ^^ (nat \<lceil>cnt\<rceil> - Suc i)) (quarterTurn p)"
    proof -
      have "quarterTurn p = \<lparr>cx = - cy p, cy = cx p\<rparr>"
        by (simp add: quarterTurn_def)
      with 1[OF True] show ?thesis by simp
    qed
    have "rotateFrom i cnt p = rotateFrom (Suc i) cnt (quarterTurn p)"
      using True by (subst rotateFrom.simps) (simp add: quarterTurn_def)
    also have "\<dots> = (quarterTurn ^^ (nat \<lceil>cnt\<rceil> - Suc i)) (quarterTurn p)"
      by (rule ih)
    also have "\<dots> = (quarterTurn ^^ (nat \<lceil>cnt\<rceil> - i)) p"
      unfolding k by (simp add: funpow_swap1)
    finally show ?thesis .
  next
    case False
    then have "\<lceil>cnt\<rceil> \<le> int i"
      by (simp add: ceiling_le_iff)
    then have "nat \<lceil>cnt\<rceil> - i = 0"
      by linarith
    with False show ?thesis
      by (subst rotateFrom.simps) simp
  qed
qed

lemma rotatePoint_funpow: "rotatePoint p cnt = (quarterTurn ^^ nat \<lceil>cnt\<rceil>) p"
  by (simp add: rotatePoint_def rotateFrom_funpow)

lemma rotatePoint_of_nat: "rotatePoint p (of_nat n) = (quarterTurn ^^ n) p"
  by (simp add: rotatePoint_funpow)

lemma distinct_ids: "distinct (map p_id PIECE_DEFINITIONS)"
  by (simp add: PIECE_DEFINITIONS_def)

lemma find_distinct_key:
  "distinct (map f xs) \<Longrightarrow> d \<in> set xs \<Longrightarrow> find (\<lambda>p. f p = f d) xs = Some d"
  by (induction xs) auto

lemma findDef_known: "d \<in> set PIECE_DEFINITIONS \<Longrightarrow> findDef (p_id d) = Some d"
  unfolding findDef_def using distinct_ids by (rule find_distinct_key)

lemma rotationCount_cases:
  "rot \<in> {0, 90, 180, 270} \<Longrightarrow> (of_int (jsRem rot 360) / 90 :: rat) = of_nat (nat (rot div 90))"
  by (auto simp: jsRem_def)

lemma transform_known:
  "findDef i = Some d \<Longrightarrow> rot \<in> {0, 90, 180, 270} \<Longrightarrow>
     getTransformedCoordinates i rot flipped = specTransform (initialShape d) rot flipped"
  by (simp add: getTransformedCoordinates_def specTransform_def rotationCount_cases
      rotatePoint_of_nat)

lemma transform_unknown:
  "i \<notin> set (map p_id PIECE_DEFINITIONS) \<Longrightarrow> getTransformedCoordinates i rot flipped = []"
  by (simp add: getTransformedCoordinates_def findDef_unknown)

lemma checkCoords_iff:
  "checkCoords gridX gridY b cs =
     (\<forall>c \<in> set cs. \<not> (gridX + cx c < 0 \<or> gridX + cx c \<ge> 11 \<or> gridY + cy c < 0 \<or> gridY + cy c \<ge> 5
        \<or> b ! nat (gridY + cy c) ! nat (gridX + cx c) \<noteq> None))"
  by (induction cs) (auto simp: Let_def GRID_COLS_def GRID_ROWS_def)

lemma findDef_L: "findDef ''L'' = Some \<lparr>p_id = ''L'', initialShape = [mkC 0 0, mkC 1 0, mkC 0 1]\<rparr>"
  by (simp add: findDef_def PIECE_DEFINITIONS_def)

lemma transform_L_90:
  "getTransformedCoordinates ''L'' 90 False = [mkC 0 0, mkC 0 1, mkC (- 1) 0]"
  by (simp add: transform_known[OF findDef_L] specTransform_def quarterTurn_def mkC_def)

text \<open>
  Claim C5.  For a piece of the catalog and a rotation of 0, 90, 180 or 270 degrees,
  \<open>getTransformedCoordinates\<close> returns the initial shape with \<open>x\<close> negated first when the
  piece is flipped, then turned \<open>rotation/90\<close> times by \<open>(x, y) \<mapsto> (-y, x)\<close>, and not
  translated; for an id that is not in the catalog it returns the empty sequence.
\<close>
theorem getTransformedCoordinates_spec:
  "(d \<in> set PIECE_DEFINITIONS \<and> rot \<in> {0, 90, 180, 270} \<longrightarrow>
      getTransformedCoordinates (p_id d) rot flipped = specTransform (initialShape d) rot flipped)
   \<and> (i \<notin> set (map p_id PIECE_DEFINITIONS) \<longrightarrow> getTransformedCoordinates i rot flipped = [])"
  using transform_known[OF findDef_known] transform_unknown by blast

theorem getTransformedCoordinates_spec_witness:
  "\<lparr>p_id = ''L'', initialShape = [mkC 0 0, mkC 1 0, mkC 0 1]\<rparr> \<in> set PIECE_DEFINITIONS
   \<and> (90 :: int) \<in> {0, 90, 180, 270}
   \<and> getTransformedCoordinates ''L'' 90 True = [mkC 0 0, mkC 0 (- 1), mkC (- 1) 0]
   \<and> ''Z'' \<notin> set (map p_id PIECE_DEFINITIONS)
   \<and> getTransformedCoordinates ''Z'' 90 True = []"
  using getTransformedCoordinates_spec
    [of "\<lparr>p_id = ''L'', initialShape = [mkC 0 0, mkC 1 0, mkC 0 1]\<rparr>" 90 True "''Z''"]
  by (simp add: PIECE_DEFINITIONS_def specTransform_def quarterTurn_def mkC_def)

section \<open>Placement validation\<close>

text \<open>
  Claim C2.  On a board of 5 rows and 11 columns, \<open>isValidPlacement\<close> returns false if
  some transformed cell, translated by the origin, has \<open>x < 0\<close>, \<open>x \<ge> 11\<close>, \<open>y < 0\<close> or
  \<open>y \<ge> 5\<close>, or lies on a board cell that is not \<open>null\<close>; otherwise it returns true.
\<close>
theorem isValidPlacement_iff:
  "wf_board currentBoard \<Longrightarrow>
   isValidPlacement i gridX gridY rot flipped currentBoard =
     (\<not> (\<exists>c \<in> set (getTransformedCoordinates i rot flipped).
           gridX + cx c < 0 \<or> gridX + cx c \<ge> 11 \<or> gridY + cy c < 0 \<or> gridY + cy c \<ge> 5
         \<or> currentBoard ! nat (gridY + cy c) ! nat (gridX + cx c) \<noteq> None))"
  by (simp add: isValidPlacement_def checkCoords_iff)

lemma findDef_C: "findDef ''C'' = Some \<lparr>p_id = ''C'', initialShape = [mkC 0 0, mkC 1 0, mkC 0 1, mkC 0 2, mkC 1 2]\<rparr>"
  by (simp add: findDef_def PIECE_DEFINITIONS_def)

lemma boardWithC_eq: "boardWithC =
  [[None, None, None, None, None, None, None, None, None, None, None],
   [None, Some ''C'', Some ''C'', None, None, None, None, None, None, None, None],
   [None, Some ''C'', None, None, None, None, None, None, None, None, None],
   [None, Some ''C'', Some ''C'', None, None, None, None, None, None, None, None],
   [None, None, None, None, None, None, None, None, None, None, None]]"
  by (simp add: boardWithC_def getBoardGrid_def absCells_def transform_known[OF findDef_C]
      specTransform_def quarterTurn_def mkC_def writeCell_def emptyBoard_def GRID_COLS_def GRID_ROWS_def
      eval_nat_numeral)

theorem isValidPlacement_iff_witness:
  "wf_board boardWithC \<and> \<not> isValidPlacement ''L'' 2 2 90 False boardWithC
   \<and> isValidPlacement ''L'' 4 2 90 False boardWithC"
proof -
  have h: "wf_board boardWithC"
    by (simp add: boardWithC_eq wf_board_def GRID_COLS_def GRID_ROWS_def)
  show ?thesis
    using h isValidPlacement_iff[OF h, of "''L''" 2 2 90 False]
      isValidPlacement_iff[OF h, of "''L''" 4 2 90 False]
    by (simp add: transform_L_90 mkC_def boardWithC_eq)
qed

text \<open>
  Claim C9.  Piece \<open>L\<close>, of shape \<open>(0,0), (1,0), (0,1)\<close>, rotated by 90 degrees and not
  flipped: at origin \<open>(2, 2)\<close> on the empty board the placement is valid, and its cells are
  the shape's points mapped by \<open>(x, y) \<mapsto> (-y, x)\<close> once and translated by \<open>(2, 2)\<close>; at
  origin \<open>(10, 4)\<close> the placement is not valid.
\<close>
theorem isValidPlacement_L_scenario:
  "isValidPlacement ''L'' 2 2 90 False emptyBoard
   \<and> map (\<lambda>c. (2 + cx c, 2 + cy c)) (getTransformedCoordinates ''L'' 90 False)
       = map (\<lambda>p. (2 + (- cy p), 2 + cx p)) [mkC 0 0, mkC 1 0, mkC 0 1]
   \<and> map (\<lambda>c. (2 + cx c, 2 + cy c)) (getTransformedCoordinates ''L'' 90 False)
       = [(2, 2), (2, 3), (1, 2)]
   \<and> \<not> isValidPlacement ''L'' 10 4 90 False emptyBoard"
  by (simp add: isValidPlacement_def transform_L_90 mkC_def emptyBoard_def GRID_COLS_def GRID_ROWS_def)

text \<open>
  Claim C10.  For a piece id that is not in the catalog, \<open>isValidPlacement\<close> returns true
  for every origin, rotation, flip state and board: there is no cell to check.
\<close>
theorem isValidPlacement_unknown_piece:
  "i \<notin> set (map p_id PIECE_DEFINITIONS) \<Longrightarrow> isValidPlacement i gridX gridY rot flipped currentBoard"
  by (simp add: isValidPlacement_def transform_unknown)

theorem isValidPlacement_unknown_piece_witness:
  "''Z'' \<notin> set (map p_id PIECE_DEFINITIONS) \<and> isValidPlacement ''Z'' 20 (- 3) 90 True boardWithC"
proof -
  have h: "''Z'' \<notin> set (map p_id PIECE_DEFINITIONS)"
    by (simp add: PIECE_DEFINITIONS_def)
  show ?thesis
    using h isValidPlacement_unknown_piece[OF h, of 20 "- 3" 90 True boardWithC] by simp
qed

section \<open>The occupancy grid\<close>

lemma wf_grid_row: "wf_grid g \<Longrightarrow> i < 5 \<Longrightarrow> length (g ! i) = 11"
  by (auto simp: wf_grid_def GRID_ROWS_def GRID_COLS_def list_all_length)

lemma wf_grid_length: "wf_grid g \<Longrightarrow> length g = 5"
  by (auto simp: wf_grid_def GRID_ROWS_def)

lemma wf_gridI: "length g = 5 \<Longrightarrow> (\<And>i. i < 5 \<Longrightarrow> length (g ! i) = 11) \<Longrightarrow> wf_grid g"
  by (auto simp: wf_grid_def GRID_ROWS_def GRID_COLS_def list_all_length)

lemma wf_setCell: "wf_grid g \<Longrightarrow> wf_grid (setCell g a b v)"
  by (cases "nat b < length g")
    (auto intro!: wf_gridI simp: setCell_def wf_grid_length wf_grid_row nth_list_update)

lemma setCell_read:
  assumes "wf_grid g" "inBounds (a, b)" "inBounds (a', b')"
  shows "setCell g a b v ! nat b' ! nat a' = (if (a', b') = (a, b) then v else g ! nat b' ! nat a')"
proof -
  from assms have "nat b < length g" "nat b' < length g" "nat a < length (g ! nat b)"
    "nat a' < length (g ! nat b')"
    by (auto simp: inBounds_def GRID_ROWS_def GRID_COLS_def wf_grid_length wf_grid_row)
  moreover from assms have "nat a = nat a' \<longleftrightarrow> a = a'" "nat b = nat b' \<longleftrightarrow> b = b'"
    by (auto simp: inBounds_def)
  ultimately show ?thesis
    by (auto simp: setCell_def nth_list_update)
qed

lemma occ_setCell:
  assumes "wf_grid g" "inBounds (a, b)"
  shows "occ (setCell g a b v) = (if v then insert (a, b) (occ g) else occ g - {(a, b)})"
  using assms by (auto simp: occ_def setCell_read split: if_splits)

lemma wf_markCells: "wf_grid g \<Longrightarrow> wf_grid (markCells g ex ey cs v)"
  unfolding markCells_def by (induction cs arbitrary: g) (auto simp: wf_setCell)

lemma occ_markCells:
  "wf_grid g \<Longrightarrow> \<forall>c \<in> set (cellsAt ex ey cs). inBounds c \<Longrightarrow>
     occ (markCells g ex ey cs v) =
       (if v then occ g \<union> set (cellsAt ex ey cs) else occ g - set (cellsAt ex ey cs))"
  unfolding markCells_def cellsAt_def
proof (induction cs arbitrary: g)
  case Nil
  then show ?case by simp
next
  case (Cons c cs)
  then show ?case
    by (simp add: wf_setCell occ_setCell) blast
qed

lemma fits_iff:
  "fits g ex ey cs \<longleftrightarrow> (\<forall>c \<in> set (cellsAt ex ey cs). inBounds c \<and> c \<notin> occ g)"
  by (induction cs) (auto simp: cellsAt_def Let_def inBounds_def occ_def)

lemma grid_eqI:
  assumes "wf_grid g" "wf_grid g'" "occ g = occ g'"
  shows "g = g'"
proof (rule nth_equalityI)
  show "length g = length g'"
    using assms by (simp add: wf_grid_length)
next
  fix i assume "i < length g"
  then have i: "i < 5" using assms by (simp add: wf_grid_length)
  show "g ! i = g' ! i"
  proof (rule nth_equalityI)
    show "length (g ! i) = length (g' ! i)"
      using assms i by (simp add: wf_grid_row)
  next
    fix j assume "j < length (g ! i)"
    then have j: "j < 11" using assms i by (simp add: wf_grid_row)
    have "(int j, int i) \<in> occ g \<longleftrightarrow> g ! i ! j" "(int j, int i) \<in> occ g' \<longleftrightarrow> g' ! i ! j"
      using i j by (auto simp: occ_def inBounds_def GRID_ROWS_def GRID_COLS_def)
    with assms(3) show "g ! i ! j = g' ! i ! j" by simp
  qed
qed

lemma unmark_restores:
  assumes "wf_grid g" "fits g ex ey cs"
  shows "markCells (markCells g ex ey cs True) ex ey cs False = g"
proof (rule grid_eqI)
  show "wf_grid (markCells (markCells g ex ey cs True) ex ey cs False)"
    using assms by (simp add: wf_markCells)
  show "wf_grid g" by fact
  from assms(2) have ib: "\<forall>c \<in> set (cellsAt ex ey cs). inBounds c"
    and free: "\<forall>c \<in> set (cellsAt ex ey cs). c \<notin> occ g"
    by (auto simp: fits_iff)
  show "occ (markCells (markCells g ex ey cs True) ex ey cs False) = occ g"
    using assms(1) ib free by (auto simp: occ_markCells wf_markCells)
qed

lemma set_scanOrder: "set scanOrder = {c. inBounds c}"
  by (auto simp: scanOrder_def inBounds_def GRID_COLS_def GRID_ROWS_def image_iff)

lemma findEmpty_Some:
  "findEmpty g = Some (a, b) \<Longrightarrow> inBounds (a, b) \<and> (a, b) \<notin> occ g"
  using set_scanOrder by (auto simp: findEmpty_def find_Some_iff occ_def dest: nth_mem)

lemma findEmpty_None: "findEmpty g = None \<Longrightarrow> occ g = {c. inBounds c}"
  using set_scanOrder by (auto simp: findEmpty_def find_None_iff occ_def)

lemma wf_emptyGrid: "wf_grid emptyGrid"
  by (simp add: wf_grid_def emptyGrid_def GRID_ROWS_def GRID_COLS_def list_all_iff)

lemma occ_emptyGrid: "occ emptyGrid = {}"
  by (auto simp: occ_def emptyGrid_def inBounds_def GRID_ROWS_def GRID_COLS_def)

text \<open>A failed search leaves the grid as it was.\<close>

lemma solve_wf_restore:
  shows "wf_grid g \<Longrightarrow> solveRecursively V g ids = Inr (r, g') \<Longrightarrow> wf_grid g' \<and> (r = None \<longrightarrow> g' = g)"
  and "wf_grid g \<Longrightarrow> tryVariations V g pieceId restIds ex ey vs = Inr (r, g')
     \<Longrightarrow> wf_grid g' \<and> (r = None \<longrightarrow> g' = g)"
proof (induction V g ids and V g pieceId restIds ex ey vs arbitrary: r g' and r g'
    rule: solveRecursively_tryVariations.induct)
  case (1 V grid)
  then show ?case by simp
next
  case (2 V grid pieceId restIds)
  then show ?case
    by (auto split: option.splits)
next
  case (3 V grid pieceId restIds emptyX emptyY)
  then show ?case by simp
next
  case (4 V grid pieceId restIds emptyX emptyY v vs)
  show ?case
  proof (cases "fits grid emptyX emptyY (coords v)")
    case False
    with 4 show ?thesis by simp
  next
    case True
    let ?g1 = "markCells grid emptyX emptyY (coords v) True"
    have wf1: "wf_grid ?g1" using "4.prems" by (simp add: wf_markCells)
    show ?thesis
    proof (cases "solveRecursively V ?g1 restIds")
      case (Inl e)
      with True "4.prems" show ?thesis by simp
    next
      case (Inr res)
      obtain r1 g1 where res: "res = (r1, g1)" by (cases res)
      from "4.IH"(1)[OF True wf1] Inr res have g1: "wf_grid g1" "r1 = None \<longrightarrow> g1 = ?g1"
        by auto
      show ?thesis
      proof (cases r1)
        case (Some result)
        with True Inr res "4.prems" g1 show ?thesis
          by (auto split: sum.splits)
      next
        case None
        with g1 have "g1 = ?g1" by simp
        then have restored: "markCells g1 emptyX emptyY (coords v) False = grid"
          using unmark_restores[OF "4.prems"(1) True] by simp
        from "4.IH"(2)[OF True Inr[unfolded res] refl None] restored "4.prems" True Inr res None
        show ?thesis by simp
      qed
    qed
  qed
qed

section \<open>The variation cache\<close>

lemma set_orientations: "set orientations = {False, True} \<times> {0, 90, 180, 270}"
  by (auto simp: orientations_def)

lemma distinct_orientations: "distinct orientations \<and> length orientations = 8"
  by (simp add: orientations_def)

lemma addVariation_Inr:
  assumes "addVariation i (seen, vars) orientation = Inr (seen', vars')"
    and "seen = map coords vars" "distinct seen"
    and "\<forall>v \<in> set vars. (v_isFlipped v, v_rotation v) \<in> D
            \<and> normShape i (v_isFlipped v, v_rotation v) = Inr (coords v)"
    and "Inr ` set seen = normShape i ` D"
  shows "seen' = map coords vars' \<and> distinct seen'
    \<and> (\<forall>v \<in> set vars'. (v_isFlipped v, v_rotation v) \<in> insert orientation D
            \<and> normShape i (v_isFlipped v, v_rotation v) = Inr (coords v))
    \<and> Inr ` set seen' = normShape i ` insert orientation D"
proof -
  obtain flipped rot where o: "orientation = (flipped, rot)" by (cases orientation)
  from assms(1) obtain n where n: "normShape i orientation = Inr n"
    by (auto simp: o normShape_def split: sum.splits)
  show ?thesis
  proof (cases "n \<in> set seen")
    case True
    with assms n o have "seen' = seen" "vars' = vars"
      by (auto simp: normShape_def)
    moreover from True n assms(5) have "normShape i ` insert orientation D = normShape i ` D"
      by auto
    ultimately show ?thesis using assms by auto
  next
    case False
    with assms(1) n o have eq: "seen' = seen @ [n]"
      "vars' = vars @ [\<lparr>v_rotation = rot, v_isFlipped = flipped, coords = n\<rparr>]"
      by (auto simp: normShape_def)
    show ?thesis
      using assms(2-5) False n unfolding eq o by auto
  qed
qed

lemma foldE_addVariation:
  assumes "foldE (addVariation i) (seen, vars) os = Inr (seen', vars')"
    and "seen = map coords vars" "distinct seen"
    and "\<forall>v \<in> set vars. (v_isFlipped v, v_rotation v) \<in> D
            \<and> normShape i (v_isFlipped v, v_rotation v) = Inr (coords v)"
    and "Inr ` set seen = normShape i ` D"
  shows "seen' = map coords vars' \<and> distinct seen'
    \<and> (\<forall>v \<in> set vars'. (v_isFlipped v, v_rotation v) \<in> D \<union> set os
            \<and> normShape i (v_isFlipped v, v_rotation v) = Inr (coords v))
    \<and> Inr ` set seen' = normShape i ` (D \<union> set os)"
  using assms
proof (induction os arbitrary: seen vars D)
  case Nil
  then show ?case by auto
next
  case (Cons orientation os)
  from Cons.prems(1) obtain seen1 vars1
    where step: "addVariation i (seen, vars) orientation = Inr (seen1, vars1)"
      and rest: "foldE (addVariation i) (seen1, vars1) os = Inr (seen', vars')"
    by (auto split: sum.splits)
  from addVariation_Inr[OF step Cons.prems(2-5)]
  have inv: "seen1 = map coords vars1" "distinct seen1"
    "\<forall>v \<in> set vars1. (v_isFlipped v, v_rotation v) \<in> insert orientation D
            \<and> normShape i (v_isFlipped v, v_rotation v) = Inr (coords v)"
    "Inr ` set seen1 = normShape i ` insert orientation D"
    by blast+
  have "insert orientation D \<union> set os = D \<union> set (orientation # os)" by auto
  with Cons.IH[OF rest inv] show ?case
    by auto
qed

lemma variationsOf_Inr:
  assumes "variationsOf d = Inr vs"
  shows "distinct (map coords vs)"
    and "\<forall>v \<in> set vs. (v_isFlipped v, v_rotation v) \<in> set orientations
            \<and> normShape (p_id d) (v_isFlipped v, v_rotation v) = Inr (coords v)"
    and "Inr ` coords ` set vs = normShape (p_id d) ` set orientations"
proof -
  from assms obtain seen where
    f: "foldE (addVariation (p_id d)) ([], []) orientations = Inr (seen, vs)"
    by (auto simp: variationsOf_def split: sum.splits)
  from foldE_addVariation[OF f, of "{}"]
  show "distinct (map coords vs)"
    and "\<forall>v \<in> set vs. (v_isFlipped v, v_rotation v) \<in> set orientations
            \<and> normShape (p_id d) (v_isFlipped v, v_rotation v) = Inr (coords v)"
    and "Inr ` coords ` set vs = normShape (p_id d) ` set orientations"
    by (auto simp: image_image)
qed

lemma variationsOf_length:
  assumes "variationsOf d = Inr vs"
  shows "length vs = card (normShape (p_id d) ` set orientations)"
proof -
  have "length vs = card (set (map coords vs))"
    using distinct_card[OF variationsOf_Inr(1)[OF assms]] by simp
  also have "\<dots> = card ((Inr :: _ \<Rightarrow> error + _) ` set (map coords vs))"
    by (simp add: card_image)
  also have "\<dots> = card (normShape (p_id d) ` set orientations)"
    using variationsOf_Inr(3)[OF assms] by simp
  finally show ?thesis .
qed

lemma card_normShape_bounds:
  "1 \<le> card (normShape i ` set orientations) \<and> card (normShape i ` set orientations) \<le> 8"
proof -
  have "card (normShape i ` set orientations) \<le> card (set orientations)"
    by (rule card_image_le) simp
  moreover have "card (set orientations) = 8"
    using distinct_orientations by (simp add: distinct_card)
  moreover have "normShape i ` set orientations \<noteq> {}"
    by (simp add: orientations_def)
  then have "card (normShape i ` set orientations) \<noteq> 0" by simp
  ultimately show ?thesis by linarith
qed

text \<open>No exception on shapes that are not empty.\<close>

lemma sortCoords_set: "set (sortCoords cs) = set cs" and sortCoords_length: "length (sortCoords cs) = length cs"
  by (simp_all add: sortCoords_def)

lemma normalizeCoords_Inr:
  "cs \<noteq> [] \<Longrightarrow> \<exists>a rest. sortCoords cs = a # rest
     \<and> normalizeCoords cs = Inr (map (\<lambda>c. \<lparr>cx = cx c - cx a, cy = cy c - cy a\<rparr>) (sortCoords cs))"
proof -
  assume "cs \<noteq> []"
  then have "sortCoords cs \<noteq> []"
    using sortCoords_length[of cs] by (metis length_0_conv)
  then obtain a rest where "sortCoords cs = a # rest" by (cases "sortCoords cs") auto
  then show ?thesis by (simp add: normalizeCoords_def)
qed

lemma transform_length:
  "findDef i = Some d \<Longrightarrow> length (getTransformedCoordinates i rot flipped) = length (initialShape d)"
  by (simp add: getTransformedCoordinates_def Let_def)

lemma shapes_nonempty: "d \<in> set PIECE_DEFINITIONS \<Longrightarrow> initialShape d \<noteq> []"
  by (auto simp: PIECE_DEFINITIONS_def)

lemma normShape_catalog:
  assumes "d \<in> set PIECE_DEFINITIONS"
  shows "\<exists>n. normShape (p_id d) orientation = Inr n"
proof -
  obtain flipped rot where o: "orientation = (flipped, rot)" by (cases orientation)
  have "length (getTransformedCoordinates (p_id d) rot flipped) = length (initialShape d)"
    using findDef_known[OF assms] by (rule transform_length)
  then have "getTransformedCoordinates (p_id d) rot flipped \<noteq> []"
    using shapes_nonempty[OF assms] by auto
  from normalizeCoords_Inr[OF this] show ?thesis
    by (auto simp: normShape_def o)
qed

lemma foldE_addVariation_ok:
  "\<forall>orientation. \<exists>n. normShape i orientation = Inr n \<Longrightarrow>
     \<exists>r. foldE (addVariation i) s os = Inr r"
proof (induction os arbitrary: s)
  case Nil
  then show ?case by simp
next
  case (Cons orientation os)
  obtain seen vars where s: "s = (seen, vars)" by (cases s)
  obtain flipped rot where o: "orientation = (flipped, rot)" by (cases orientation)
  from Cons.prems obtain n where "normShape i (flipped, rot) = Inr n" by blast
  then have "\<exists>s'. addVariation i (seen, vars) (flipped, rot) = Inr s'"
    by (simp add: normShape_def)
  then show ?case
    using Cons.IH[OF Cons.prems] by (auto simp: s o)
qed

lemma variationsOf_catalog:
  "d \<in> set PIECE_DEFINITIONS \<Longrightarrow> \<exists>vs. variationsOf d = Inr vs"
  using foldE_addVariation_ok[of "p_id d" "([], [])" orientations] normShape_catalog[of d]
  by (auto simp: variationsOf_def split: sum.splits)

text \<open>The table.\<close>

lemma precompute_fold:
  assumes "foldE (\<lambda>tbl piece. case variationsOf piece of
                Inl e \<Rightarrow> Inl e
              | Inr variations \<Rightarrow> Inr (tbl(p_id piece \<mapsto> rnd (p_id piece) variations))) tbl ds = Inr V"
    and "distinct (map p_id ds)"
  shows "(\<forall>d \<in> set ds. \<exists>vs. variationsOf d = Inr vs \<and> V (p_id d) = Some (rnd (p_id d) vs))
     \<and> (\<forall>i. i \<notin> p_id ` set ds \<longrightarrow> V i = tbl i)"
  using assms
proof (induction ds arbitrary: tbl)
  case Nil
  then show ?case by simp
next
  case (Cons d ds)
  from Cons.prems(1) obtain vs where vs: "variationsOf d = Inr vs"
    and rest: "foldE (\<lambda>tbl piece. case variationsOf piece of
                Inl e \<Rightarrow> Inl e
              | Inr variations \<Rightarrow> Inr (tbl(p_id piece \<mapsto> rnd (p_id piece) variations)))
              (tbl(p_id d \<mapsto> rnd (p_id d) vs)) ds = Inr V"
    by (auto split: sum.splits)
  from Cons.prems(2) have dist: "distinct (map p_id ds)" and notin: "p_id d \<notin> p_id ` set ds"
    by auto
  from Cons.IH[OF rest dist] vs notin show ?case
    by auto
qed

lemma precompute_ok: "\<exists>V. precomputeVariations rnd = Inr V"
proof -
  have "\<forall>d \<in> set ds. \<exists>vs. variationsOf d = Inr vs \<Longrightarrow>
    \<exists>V. foldE (\<lambda>tbl piece. case variationsOf piece of
                Inl e \<Rightarrow> Inl e
              | Inr variations \<Rightarrow> Inr (tbl(p_id piece \<mapsto> rnd (p_id piece) variations))) tbl ds = Inr V"
    for ds tbl
    by (induction ds arbitrary: tbl) auto
  then show ?thesis
    unfolding precomputeVariations_def using variationsOf_catalog by blast
qed

lemma precompute_entries:
  assumes "precomputeVariations rnd = Inr V"
  shows "d \<in> set PIECE_DEFINITIONS \<Longrightarrow>
           \<exists>vs. variationsOf d = Inr vs \<and> V (p_id d) = Some (rnd (p_id d) vs)"
    and "i \<notin> p_id ` set PIECE_DEFINITIONS \<Longrightarrow> V i = None"
  using precompute_fold[OF assms[unfolded precomputeVariations_def] distinct_ids] by auto

lemma validTable_entry:
  assumes "validTable V" "V i = Some vs"
  shows "\<exists>d vs'. d \<in> set PIECE_DEFINITIONS \<and> i = p_id d \<and> variationsOf d = Inr vs'
            \<and> mset vs = mset vs'"
proof -
  from assms(1) obtain rnd where rnd: "\<forall>i. shuffleOutcome (rnd i)"
    and V: "precomputeVariations rnd = Inr V"
    by (auto simp: validTable_def)
  from precompute_entries(2)[OF V, of i] assms(2) obtain d
    where d: "d \<in> set PIECE_DEFINITIONS" "i = p_id d" by auto
  from precompute_entries(1)[OF V d(1)] obtain vs'
    where "variationsOf d = Inr vs'" "V (p_id d) = Some (rnd (p_id d) vs')" by auto
  with d assms(2) rnd show ?thesis
    by (auto simp: shuffleOutcome_def)
qed

lemma validTable_known:
  assumes "validTable V" "d \<in> set PIECE_DEFINITIONS"
  shows "\<exists>vs. V (p_id d) = Some vs"
proof -
  from assms(1) obtain rnd where V: "precomputeVariations rnd = Inr V"
    by (auto simp: validTable_def)
  from precompute_entries(1)[OF V assms(2)] show ?thesis by auto
qed

lemma validTable_variation:
  assumes "validTable V" "V i = Some vs" "v \<in> set vs"
  shows "normalizeCoords (getTransformedCoordinates i (v_rotation v) (v_isFlipped v)) = Inr (coords v)"
proof -
  from validTable_entry[OF assms(1,2)] obtain d vs' where d: "i = p_id d"
    "variationsOf d = Inr vs'" "mset vs = mset vs'" by auto
  from d(3) assms(3) have "v \<in> set vs'" by (metis mset_eq_setD)
  with variationsOf_Inr(2)[OF d(2)] d(1) show ?thesis
    by (auto simp: normShape_def)
qed

section \<open>The solver\<close>


lemma coord_eqI: "cx a = cx b \<Longrightarrow> cy a = cy b \<Longrightarrow> a = (b :: Coordinate)"
  by (rule Coordinate.equality) simp_all

lemma inj_quarterTurn_funpow: "inj (quarterTurn ^^ n)"
proof (rule inj_fn)
  show "inj quarterTurn"
    by (rule injI) (simp add: quarterTurn_def Coordinate.equality)
qed

lemma shapes_distinct: "d \<in> set PIECE_DEFINITIONS \<Longrightarrow> distinct (initialShape d)"
  by (auto simp: PIECE_DEFINITIONS_def mkC_def)

lemma distinct_map_inj: "inj f \<Longrightarrow> distinct xs \<Longrightarrow> distinct (map f xs)"
  by (simp add: distinct_map inj_on_def inj_def)

lemma transform_distinct: "distinct (getTransformedCoordinates i rot flipped)"
proof (cases "findDef i")
  case None
  then show ?thesis by (simp add: getTransformedCoordinates_def)
next
  case (Some d)
  then have "d \<in> set PIECE_DEFINITIONS"
    by (auto simp: findDef_def find_Some_iff)
  then have dist: "distinct (initialShape d)" by (rule shapes_distinct)
  let ?f = "\<lambda>p :: Coordinate. \<lparr>cx = (if flipped then - cx p else cx p), cy = cy p\<rparr>"
  let ?g = "\<lambda>p. rotatePoint p (of_int (jsRem rot 360) / 90)"
  have "inj ?f"
    by (rule injI) (auto intro: coord_eqI split: if_splits)
  then have 1: "distinct (map ?f (initialShape d))"
    using dist by (rule distinct_map_inj)
  have "inj ?g"
    using inj_quarterTurn_funpow[of "nat \<lceil>of_int (jsRem rot 360) / 90 :: rat\<rceil>"]
    by (simp add: rotatePoint_funpow inj_def)
  then have "distinct (map ?g (map ?f (initialShape d)))"
    using 1 by (rule distinct_map_inj)
  moreover have "getTransformedCoordinates i rot flipped = map ?g (map ?f (initialShape d))"
    using Some by (simp add: getTransformedCoordinates_def Let_def)
  ultimately show ?thesis by simp
qed

lemma absCells_distinct: "distinct (absCells p)"
proof -
  have "inj (\<lambda>c :: Coordinate. (px p + cx c, py p + cy c))"
    by (rule injI) (auto intro: coord_eqI)
  then show ?thesis
    unfolding absCells_def using transform_distinct by (rule distinct_map_inj)
qed

lemma transform_size: "length (getTransformedCoordinates i rot flipped) = pieceSize i"
  by (simp add: getTransformedCoordinates_def pieceSize_def Let_def split: option.splits)

lemma absCells_length: "length (absCells p) = pieceSize (pid p)"
  by (simp add: absCells_def transform_size)

text \<open>The round trip of one placement.\<close>

lemma placed_roundtrip:
  assumes "normalizeCoords (getTransformedCoordinates i (v_rotation v) (v_isFlipped v)) = Inr (coords v)"
  shows "\<exists>p. placedPieceOf i emptyX emptyY v = Inr p \<and> pid p = i
           \<and> set (absCells p) = set (cellsAt emptyX emptyY (coords v))"
proof -
  let ?raw = "getTransformedCoordinates i (v_rotation v) (v_isFlipped v)"
  from assms obtain a rest where a: "sortCoords ?raw = a # rest"
    by (cases "sortCoords ?raw") (auto simp: normalizeCoords_def)
  with assms have n: "coords v = map (\<lambda>c. \<lparr>cx = cx c - cx a, cy = cy c - cy a\<rparr>) (sortCoords ?raw)"
    by (simp add: normalizeCoords_def)
  let ?p = "\<lparr>pid = i, px = emptyX - cx a, py = emptyY - cy a, rotation = v_rotation v,
            isFlipped = v_isFlipped v, isLocked = Some True\<rparr>"
  have p: "placedPieceOf i emptyX emptyY v = Inr ?p"
    using a by (simp add: placedPieceOf_def)
  have "set (absCells ?p) = (\<lambda>c. (emptyX - cx a + cx c, emptyY - cy a + cy c)) ` set ?raw"
    by (simp add: absCells_def)
  also have "\<dots> = (\<lambda>c. (emptyX - cx a + cx c, emptyY - cy a + cy c)) ` set (sortCoords ?raw)"
    by (simp add: sortCoords_set)
  also have "\<dots> = set (cellsAt emptyX emptyY (coords v))"
    unfolding n cellsAt_def by (auto simp: image_iff)
  finally show ?thesis using p by auto
qed



lemma tiling_step:
  assumes "wf_grid g" "fits g ex ey cs"
    and "tiling (markCells g ex ey cs True) result g'"
    and "set (absCells p) = set (cellsAt ex ey cs)"
  shows "tiling g (p # result) g'"
proof -
  let ?S = "set (cellsAt ex ey cs)"
  let ?R = "set (concat (map absCells result))"
  from assms(2) have ib: "\<forall>c \<in> ?S. inBounds c" and free: "\<forall>c \<in> ?S. c \<notin> occ g"
    by (auto simp: fits_iff)
  have occ1: "occ (markCells g ex ey cs True) = occ g \<union> ?S"
    using assms(1) ib by (simp add: occ_markCells)
  from assms(3) have d: "distinct (concat (map absCells result))"
    and r: "\<forall>c \<in> ?R. inBounds c \<and> c \<notin> occ g \<union> ?S"
    and o: "occ g' = occ g \<union> ?S \<union> ?R"
    by (auto simp: tiling_def occ1)
  have "distinct (absCells p @ concat (map absCells result))"
    using d r assms(4) absCells_distinct[of p] by auto
  moreover have "\<forall>c \<in> set (absCells p) \<union> ?R. inBounds c \<and> c \<notin> occ g"
    using ib free r assms(4) by auto
  moreover have "occ g' = occ g \<union> (set (absCells p) \<union> ?R)"
    using o assms(4) by auto
  ultimately show ?thesis
    by (simp add: tiling_def)
qed

lemma solve_success:
  shows "wf_grid g \<Longrightarrow> validTable V \<Longrightarrow> solveRecursively V g ids = Inr (Some sol, g')
           \<Longrightarrow> solved V g ids sol g'"
    and "wf_grid g \<Longrightarrow> validTable V \<Longrightarrow> V pieceId = Some vs0 \<Longrightarrow> set vs \<subseteq> set vs0
           \<Longrightarrow> findEmpty g = Some (ex, ey)
           \<Longrightarrow> tryVariations V g pieceId restIds ex ey vs = Inr (Some sol, g')
           \<Longrightarrow> solved V g (pieceId # restIds) sol g'"
proof (induction V g ids and V g pieceId restIds ex ey vs arbitrary: sol g' and sol g' vs0
    rule: solveRecursively_tryVariations.induct)
  case (1 V grid)
  then show ?case
    by (simp add: solved_def tiling_def)
next
  case (2 V grid pieceId restIds)
  show ?case
  proof (cases "findEmpty grid")
    case None
    with "2.prems" have "sol = []" "g' = grid" by auto
    with findEmpty_None[OF None] show ?thesis
      by (simp add: solved_def tiling_def)
  next
    case (Some cell)
    obtain ex ey where cell: "cell = (ex, ey)" by (cases cell)
    from "2.prems"(3) Some cell obtain vs where vs: "V pieceId = Some vs"
      and run: "tryVariations V grid pieceId restIds ex ey vs = Inr (Some sol, g')"
      by (auto split: option.splits)
    show ?thesis
      by (rule "2.IH"[OF Some cell[symmetric] vs "2.prems"(1,2) vs subset_refl
            Some[unfolded cell] run])
  qed
next
  case (3 V grid pieceId restIds emptyX emptyY)
  then show ?case by simp
next
  case (4 V grid pieceId restIds emptyX emptyY v vs)
  show ?case
  proof (cases "fits grid emptyX emptyY (coords v)")
    case False
    with "4.prems" have run: "tryVariations V grid pieceId restIds emptyX emptyY vs = Inr (Some sol, g')"
      and sub: "set vs \<subseteq> set vs0"
      by auto
    show ?thesis
      by (rule "4.IH"(3)[OF False "4.prems"(1,2,3) sub "4.prems"(5) run])
  next
    case True
    let ?g1 = "markCells grid emptyX emptyY (coords v) True"
    have wf1: "wf_grid ?g1" using "4.prems"(1) by (simp add: wf_markCells)
    from "4.prems"(6) True obtain r1 g1 where res: "solveRecursively V ?g1 restIds = Inr (r1, g1)"
      by (auto split: sum.splits)
    show ?thesis
    proof (cases r1)
      case None
      from solve_wf_restore(1)[OF wf1 res] None have "g1 = ?g1" by simp
      then have restored: "markCells g1 emptyX emptyY (coords v) False = grid"
        using unmark_restores[OF "4.prems"(1) True] by simp
      from "4.prems"(6) True res None restored
      have run: "tryVariations V (markCells g1 emptyX emptyY (coords v) False)
                   pieceId restIds emptyX emptyY vs = Inr (Some sol, g')"
        by simp
      from "4.prems"(4) have sub: "set vs \<subseteq> set vs0" by auto
      have "solved V (markCells g1 emptyX emptyY (coords v) False) (pieceId # restIds) sol g'"
        by (rule "4.IH"(2)[OF True res refl None _ "4.prems"(2,3) sub _ run])
          (simp_all add: restored "4.prems")
      then show ?thesis by (simp add: restored)
    next
      case (Some result)
      from "4.prems"(4) have vin: "v \<in> set vs0" by auto
      from validTable_variation[OF "4.prems"(2,3) vin] placed_roundtrip
      obtain p where p: "placedPieceOf pieceId emptyX emptyY v = Inr p" "pid p = pieceId"
        "set (absCells p) = set (cellsAt emptyX emptyY (coords v))"
        by blast
      from "4.prems"(6) True res Some p(1) have eq: "sol = p # result" "g' = g1"
        by auto
      have ih: "solved V ?g1 restIds result g1"
        by (rule "4.IH"(1)[OF True wf1 "4.prems"(2) res[unfolded Some]])
      have "tiling grid (p # result) g1"
        using ih tiling_step[OF "4.prems"(1) True _ p(3)] by (simp add: solved_def)
      moreover have "searchStep V grid emptyX emptyY v p"
        unfolding searchStep_def
        using "4.prems"(1,3,5) vin True p by blast
      then have "searchChain V grid (p # result) g1"
        using ih p(3) by (auto simp: solved_def)
      ultimately show ?thesis
        using ih p(2) unfolding eq solved_def by auto
    qed
  qed
qed



lemma shuffleTo_outcome: "shuffleOutcome (shuffleTo target)"
  by (simp add: shuffleOutcome_def shuffleTo_def)

lemma solve_Inr:
  shows "wf_grid g \<Longrightarrow> validTable V \<Longrightarrow> set ids \<subseteq> p_id ` set PIECE_DEFINITIONS
           \<Longrightarrow> \<exists>r. solveRecursively V g ids = Inr r"
    and "wf_grid g \<Longrightarrow> validTable V \<Longrightarrow> V pieceId = Some vs0 \<Longrightarrow> set vs \<subseteq> set vs0
           \<Longrightarrow> set restIds \<subseteq> p_id ` set PIECE_DEFINITIONS
           \<Longrightarrow> \<exists>r. tryVariations V g pieceId restIds ex ey vs = Inr r"
proof (induction V g ids and V g pieceId restIds ex ey vs arbitrary: and vs0
    rule: solveRecursively_tryVariations.induct)
  case (1 V grid)
  then show ?case by simp
next
  case (2 V grid pieceId restIds)
  show ?case
  proof (cases "findEmpty grid")
    case None
    then show ?thesis by simp
  next
    case (Some cell)
    obtain ex ey where cell: "cell = (ex, ey)" by (cases cell)
    from "2.prems"(3) obtain d where "d \<in> set PIECE_DEFINITIONS" "pieceId = p_id d" by auto
    with validTable_known[OF "2.prems"(2)] obtain vs where vs: "V pieceId = Some vs" by blast
    from "2.prems"(3) have rest: "set restIds \<subseteq> p_id ` set PIECE_DEFINITIONS" by simp
    from "2.IH"[OF Some cell[symmetric] vs "2.prems"(1,2) vs subset_refl rest]
    show ?thesis using Some cell vs by simp
  qed
next
  case (3 V grid pieceId restIds emptyX emptyY)
  then show ?case by simp
next
  case (4 V grid pieceId restIds emptyX emptyY v vs)
  from "4.prems"(4) have sub: "set vs \<subseteq> set vs0" and vin: "v \<in> set vs0" by auto
  show ?case
  proof (cases "fits grid emptyX emptyY (coords v)")
    case False
    from "4.IH"(3)[OF False "4.prems"(1,2,3) sub "4.prems"(5)] False
    show ?thesis by simp
  next
    case True
    let ?g1 = "markCells grid emptyX emptyY (coords v) True"
    have wf1: "wf_grid ?g1" using "4.prems"(1) by (simp add: wf_markCells)
    from "4.IH"(1)[OF True wf1 "4.prems"(2,5)]
    obtain r1 g1 where res: "solveRecursively V ?g1 restIds = Inr (r1, g1)" by auto
    show ?thesis
    proof (cases r1)
      case None
      from solve_wf_restore(1)[OF wf1 res] have "wf_grid g1" by simp
      then have wf2: "wf_grid (markCells g1 emptyX emptyY (coords v) False)"
        by (rule wf_markCells)
      from "4.IH"(2)[OF True res refl None wf2 "4.prems"(2,3) sub "4.prems"(5)] True res None
      show ?thesis by simp
    next
      case (Some result)
      from validTable_variation[OF "4.prems"(2,3) vin] placed_roundtrip
      obtain p where "placedPieceOf pieceId emptyX emptyY v = Inr p" by blast
      with True res Some show ?thesis by simp
    qed
  qed
qed

text \<open>Counting cells.\<close>

lemma scanOrder_distinct: "distinct scanOrder \<and> length scanOrder = 55"
  by code_simp

lemma card_inBounds: "card {c. inBounds c} = 55"
proof -
  have "card (set scanOrder) = 55"
    using scanOrder_distinct distinct_card[of scanOrder] by simp
  then show ?thesis by (simp only: set_scanOrder)
qed

lemma finite_inBounds: "finite {c. inBounds c}"
proof -
  have "finite (set scanOrder)" by (rule finite_set)
  then show ?thesis by (simp only: set_scanOrder)
qed

lemma catalog_sizes:
  "sum_list (map pieceSize (map p_id PIECE_DEFINITIONS)) = 55
   \<and> list_all (\<lambda>i. 0 < pieceSize i) (map p_id PIECE_DEFINITIONS)
   \<and> length PIECE_DEFINITIONS = 12"
  by code_simp

lemma sum_list_mset_cong: "mset xs = mset ys \<Longrightarrow> sum_list (map f xs) = sum_list (map (f :: 'a \<Rightarrow> nat) ys)"
proof -
  assume "mset xs = mset ys"
  then have "mset (map f xs) = mset (map f ys)" by simp
  then have "sum_mset (mset (map f xs)) = sum_mset (mset (map f ys))" by (rule arg_cong)
  then show ?thesis by (simp only: sum_mset_sum_list)
qed

lemma cells_length: "length (concat (map absCells sol)) = sum_list (map pieceSize (map pid sol))"
  by (simp add: length_concat comp_def absCells_length)

lemma full_solution:
  assumes "validTable V" "mset ids = mset (map p_id PIECE_DEFINITIONS)"
    and "solveRecursively V emptyGrid ids = Inr (Some sol, g')"
  shows "map pid sol = ids"
    and "distinct (concat (map absCells sol))"
    and "set (concat (map absCells sol)) = {c. inBounds c}"
proof -
  let ?cells = "concat (map absCells sol)"
  from solve_success(1)[OF wf_emptyGrid assms(1,3)]
  have t: "tiling emptyGrid sol g'"
    and rest: "\<exists>rest. ids = map pid sol @ rest \<and> (rest = [] \<or> occ g' = {c. inBounds c})"
    by (auto simp: solved_def)
  from t have d: "distinct ?cells" and ib: "set ?cells \<subseteq> {c. inBounds c}"
    and o: "occ g' = set ?cells"
    by (auto simp: tiling_def occ_emptyGrid)
  have total: "sum_list (map pieceSize ids) = 55"
    using sum_list_mset_cong[OF assms(2), of pieceSize] catalog_sizes by simp
  have pos: "\<forall>i \<in> set ids. 0 < pieceSize i"
    using catalog_sizes mset_eq_setD[OF assms(2)] by (simp add: list_all_iff)
  from rest obtain rs where rs: "ids = map pid sol @ rs" "rs = [] \<or> occ g' = {c. inBounds c}"
    by blast
  have n: "card (set ?cells) = sum_list (map pieceSize (map pid sol))"
    using distinct_card[OF d] by (simp only: cells_length)
  have "rs = []"
  proof (rule ccontr)
    assume ne: "rs \<noteq> []"
    with rs(2) o have "card (set ?cells) = 55" by (simp add: card_inBounds)
    with n total rs(1) have "sum_list (map pieceSize rs) = 0" by simp
    moreover from ne obtain i where i: "i \<in> set rs" by (cases rs) auto
    ultimately have "pieceSize i = 0" by simp
    moreover have "0 < pieceSize i" using pos rs(1) i by simp
    ultimately show False by simp
  qed
  with rs(1) show ids: "map pid sol = ids" by simp
  show "distinct ?cells" by fact
  have "card (set ?cells) = card {c. inBounds c}"
    using n total ids by (simp add: card_inBounds)
  with ib show "set ?cells = {c. inBounds c}"
    using finite_inBounds by (simp add: card_subset_eq)
qed

lemma distinct_concat_disjoint:
  "distinct (concat xss) \<Longrightarrow> i < j \<Longrightarrow> j < length xss \<Longrightarrow> set (xss ! i) \<inter> set (xss ! j) = {}"
proof (induction xss arbitrary: i j)
  case Nil
  then show ?case by simp
next
  case (Cons xs xss)
  show ?case
  proof (cases i)
    case 0
    with Cons.prems obtain j' where j': "j = Suc j'" "j' < length xss" by (cases j) auto
    then have "xss ! j' \<in> set xss" by simp
    then have "set (xss ! j') \<subseteq> set (concat xss)" by auto
    with Cons.prems(1) 0 j' show ?thesis by auto
  next
    case (Suc i')
    with Cons.prems obtain j' where "j = Suc j'" "i' < j'" "j' < length xss" by (cases j) auto
    with Cons.IH[of i' j'] Cons.prems(1) Suc show ?thesis by simp
  qed
qed

text \<open>The retry loop.\<close>

lemma generateValidBoard_result:
  "generateValidBoard V shuffleIds k stackLeft = Inr sol \<Longrightarrow>
     \<exists>n g'. solveRecursively V emptyGrid (shuffleIds n (map p_id PIECE_DEFINITIONS))
               = Inr (Some sol, g')"
proof (induction stackLeft arbitrary: k)
  case 0
  then show ?case by simp
next
  case (Suc stackLeft)
  show ?case
  proof (cases "solveRecursively V emptyGrid (shuffleIds k (map p_id PIECE_DEFINITIONS))")
    case (Inl e)
    with Suc.prems show ?thesis by simp
  next
    case (Inr res)
    obtain r g where res: "res = (r, g)" by (cases res)
    show ?thesis
    proof (cases r)
      case None
      with Suc.prems Inr res have "generateValidBoard V shuffleIds (Suc k) stackLeft = Inr sol"
        by simp
      then show ?thesis by (rule Suc.IH)
    next
      case (Some s)
      with Suc.prems Inr res have "s = sol" by simp
      with Inr res Some show ?thesis by blast
    qed
  qed
qed

lemma generateValidBoard_skip:
  assumes "\<forall>j < n. \<exists>g. solveRecursively V emptyGrid
                          (shuffleIds (k + j) (map p_id PIECE_DEFINITIONS)) = Inr (None, g)"
  shows "generateValidBoard V shuffleIds k (n + stackLeft)
           = generateValidBoard V shuffleIds (k + n) stackLeft"
  using assms
proof (induction n arbitrary: k)
  case 0
  then show ?case by simp
next
  case (Suc n)
  from Suc.prems have "\<exists>g. solveRecursively V emptyGrid
                          (shuffleIds (k + 0) (map p_id PIECE_DEFINITIONS)) = Inr (None, g)"
    by blast
  then obtain g where
    first: "solveRecursively V emptyGrid (shuffleIds k (map p_id PIECE_DEFINITIONS)) = Inr (None, g)"
    by auto
  have "\<forall>j < n. \<exists>g. solveRecursively V emptyGrid
                          (shuffleIds (Suc k + j) (map p_id PIECE_DEFINITIONS)) = Inr (None, g)"
  proof (intro allI impI)
    fix j assume "j < n"
    then have "Suc j < Suc n" by simp
    with Suc.prems have "\<exists>g. solveRecursively V emptyGrid
                          (shuffleIds (k + Suc j) (map p_id PIECE_DEFINITIONS)) = Inr (None, g)"
      by blast
    then show "\<exists>g. solveRecursively V emptyGrid
                          (shuffleIds (Suc k + j) (map p_id PIECE_DEFINITIONS)) = Inr (None, g)"
      by simp
  qed
  from Suc.IH[OF this] first show ?case by simp
qed

lemma generateValidBoard_exhausts:
  assumes "\<forall>j < stackLeft. \<exists>g. solveRecursively V emptyGrid
                          (shuffleIds j (map p_id PIECE_DEFINITIONS)) = Inr (None, g)"
  shows "generateValidBoard V shuffleIds 0 stackLeft = Inl RangeError"
  using generateValidBoard_skip[of stackLeft V shuffleIds 0 0] assms by simp

lemma generateValidBoard_finds:
  assumes "\<forall>j < n. \<exists>g. solveRecursively V emptyGrid
                          (shuffleIds j (map p_id PIECE_DEFINITIONS)) = Inr (None, g)"
    and "solveRecursively V emptyGrid (shuffleIds n (map p_id PIECE_DEFINITIONS)) = Inr (Some s, g')"
    and "n < stackLeft"
  shows "generateValidBoard V shuffleIds 0 stackLeft = Inr s"
proof -
  from assms(3) obtain m where m: "stackLeft = n + Suc m"
    by (metis add_Suc_right less_imp_Suc_add)
  have "generateValidBoard V shuffleIds 0 (n + Suc m) = generateValidBoard V shuffleIds (0 + n) (Suc m)"
    using assms(1) by (intro generateValidBoard_skip) simp
  also have "\<dots> = Inr s"
    using assms(2) by simp
  finally show ?thesis by (simp add: m)
qed

lemma generateValidBoard_error:
  assumes "validTable V" "\<forall>k. shuffleOutcome (shuffleIds k)"
    and "generateValidBoard V shuffleIds k stackLeft = Inl e"
  shows "e = RangeError"
  using assms(3)
proof (induction stackLeft arbitrary: k)
  case 0
  then show ?case by simp
next
  case (Suc stackLeft)
  let ?ids = "shuffleIds k (map p_id PIECE_DEFINITIONS)"
  have "set ?ids \<subseteq> p_id ` set PIECE_DEFINITIONS"
    using assms(2) mset_eq_setD[of ?ids "map p_id PIECE_DEFINITIONS"]
    by (simp add: shuffleOutcome_def)
  from solve_Inr(1)[OF wf_emptyGrid assms(1) this]
  obtain r g1 where r: "solveRecursively V emptyGrid ?ids = Inr (r, g1)" by auto
  show ?case
  proof (cases r)
    case None
    with Suc.prems r have "generateValidBoard V shuffleIds (Suc k) stackLeft = Inl e" by simp
    then show ?thesis by (rule Suc.IH)
  next
    case (Some sol)
    with Suc.prems r show ?thesis by simp
  qed
qed

section \<open>Evaluated runs\<close>

lemma variations_eval:
  "map (\<lambda>d. (p_id d, variationsOf d)) PIECE_DEFINITIONS
     = map (\<lambda>(i, vs). (i, Inr vs)) catalogVariations"
  by code_simp

lemma validTable_catalog: "validTable (map_of catalogVariations)"
proof -
  obtain V where V: "precomputeVariations (\<lambda>i vs. vs) = Inr V"
    using precompute_ok by blast
  have "map fst (map (\<lambda>d. (p_id d, variationsOf d)) PIECE_DEFINITIONS)
      = map fst (map (\<lambda>(i, vs). (i, Inr vs :: error + PieceVariation list)) catalogVariations)"
    by (simp only: variations_eval)
  then have keys: "map fst catalogVariations = map p_id PIECE_DEFINITIONS"
    by (simp add: comp_def case_prod_beta)
  have "V i = map_of catalogVariations i" for i
  proof (cases "i \<in> p_id ` set PIECE_DEFINITIONS")
    case False
    then have "V i = None" by (rule precompute_entries(2)[OF V])
    moreover from False keys have "i \<notin> fst ` set catalogVariations"
      by (metis list.set_map)
    then have "map_of catalogVariations i = None"
      by (simp add: map_of_eq_None_iff)
    ultimately show ?thesis by simp
  next
    case True
    then obtain d where d: "d \<in> set PIECE_DEFINITIONS" "i = p_id d" by auto
    from precompute_entries(1)[OF V d(1)] obtain vs
      where vs: "variationsOf d = Inr vs" "V (p_id d) = Some vs" by auto
    from d(1) vs(1) have "(p_id d, Inr vs) \<in> set (map (\<lambda>d. (p_id d, variationsOf d)) PIECE_DEFINITIONS)"
      by force
    then have "(p_id d, Inr vs) \<in> set (map (\<lambda>(i, vs). (i, Inr vs :: error + PieceVariation list)) catalogVariations)"
      by (simp only: variations_eval)
    then have "(p_id d, vs) \<in> set catalogVariations"
      by auto
    moreover have "distinct (map fst catalogVariations)"
      using keys distinct_ids by simp
    ultimately have "map_of catalogVariations (p_id d) = Some vs"
      by (rule map_of_is_SomeI[rotated])
    with vs(2) d(2) show ?thesis by simp
  qed
  then have "V = map_of catalogVariations" by (rule ext)
  with V have "precomputeVariations (\<lambda>i vs. vs) = Inr (map_of catalogVariations)" by simp
  moreover have "\<forall>i. shuffleOutcome ((\<lambda>i vs. vs) i :: PieceVariation list \<Rightarrow> PieceVariation list)"
    by (simp add: shuffleOutcome_def)
  ultimately show ?thesis
    unfolding validTable_def by (intro exI[of _ "\<lambda>i vs. vs"]) simp
qed

lemma badOrder_run:
  "solveRecursively (map_of catalogVariations) emptyGrid badOrder = Inr (None, emptyGrid)"
  by code_simp

lemma goodOrder_run:
  "solveRecursively (map_of catalogVariations) emptyGrid goodOrder
     = Inr (Some goodSolution, fullGrid)"
  by code_simp

lemma orders_perm:
  "mset badOrder = mset (map p_id PIECE_DEFINITIONS)"
  "mset goodOrder = mset (map p_id PIECE_DEFINITIONS)"
  by code_simp+

lemma shuffleTo_ids:
  "shuffleTo badOrder (map p_id PIECE_DEFINITIONS) = badOrder"
  "shuffleTo goodOrder (map p_id PIECE_DEFINITIONS) = goodOrder"
  by (simp_all add: shuffleTo_def orders_perm)

lemma inBounds_set: "{c. inBounds c} = {(a, b). 0 \<le> a \<and> a < 11 \<and> 0 \<le> b \<and> b < 5}"
  by (auto simp: inBounds_def GRID_COLS_def GRID_ROWS_def)

lemma full_solution_props:
  assumes "validTable V" "mset ids = mset (map p_id PIECE_DEFINITIONS)"
    and "solveRecursively V emptyGrid ids = Inr (Some sol, g')"
  shows "length sol = 12 \<and> mset (map pid sol) = mset (map p_id PIECE_DEFINITIONS)
    \<and> distinct (map pid sol)
    \<and> (\<forall>i j. i < j \<and> j < length sol \<longrightarrow> set (absCells (sol ! i)) \<inter> set (absCells (sol ! j)) = {})
    \<and> (\<forall>p \<in> set sol. distinct (absCells p))
    \<and> (\<Union>p \<in> set sol. set (absCells p)) = {(a, b). 0 \<le> a \<and> a < 11 \<and> 0 \<le> b \<and> b < 5}"
proof -
  note fs = full_solution[OF assms]
  have len: "length ids = 12"
    using mset_eq_length[OF assms(2)] catalog_sizes by simp
  have "length sol = length (map pid sol)" by simp
  also have "\<dots> = 12" using fs(1) len by simp
  finally have 1: "length sol = 12" .
  have 2: "mset (map pid sol) = mset (map p_id PIECE_DEFINITIONS)"
    using fs(1) assms(2) by simp
  have 3: "distinct (map pid sol)"
    using mset_eq_imp_distinct_iff[OF 2] distinct_ids by simp
  have 4: "set (absCells (sol ! i)) \<inter> set (absCells (sol ! j)) = {}" if "i < j" "j < length sol" for i j
    using distinct_concat_disjoint[OF fs(2), of i j] that by simp
  have 5: "(\<Union>p \<in> set sol. set (absCells p)) = {(a, b). 0 \<le> a \<and> a < 11 \<and> 0 \<le> b \<and> b < 5}"
    using fs(3) by (simp add: inBounds_set)
  from 1 2 3 4 5 absCells_distinct show ?thesis by blast
qed

lemma shuffled_ids:
  "shuffleOutcome f \<Longrightarrow> mset (f (map p_id PIECE_DEFINITIONS)) = mset (map p_id PIECE_DEFINITIONS)"
  by (simp add: shuffleOutcome_def)

section \<open>Full-board solutions\<close>

text \<open>
  Claim C1.  Every list of placed pieces that \<open>generateValidBoard\<close> returns has 12 entries,
  one for each piece id of the catalog and none repeated; the absolute cells of the pieces
  (each shape transformed by the stored rotation and flip, translated by the stored origin)
  are pairwise disjoint, no piece lists a cell twice, and together they are the 55 cells
  of the grid.
\<close>

theorem generateValidBoard_tiles_board:
  assumes "validTable V" and "\<forall>k. shuffleOutcome (shuffleIds k)"
    and "generateValidBoard V shuffleIds attempt stackLeft = Inr solution"
  shows "length solution = 12
    \<and> mset (map pid solution) = mset (map p_id PIECE_DEFINITIONS)
    \<and> distinct (map pid solution)
    \<and> (\<forall>i j. i < j \<and> j < length solution \<longrightarrow>
          set (absCells (solution ! i)) \<inter> set (absCells (solution ! j)) = {})
    \<and> (\<forall>p \<in> set solution. distinct (absCells p))
    \<and> (\<Union>p \<in> set solution. set (absCells p)) = {(a, b). 0 \<le> a \<and> a < 11 \<and> 0 \<le> b \<and> b < 5}"
proof -
  from generateValidBoard_result[OF assms(3)] obtain n g' where
    run: "solveRecursively V emptyGrid (shuffleIds n (map p_id PIECE_DEFINITIONS))
            = Inr (Some solution, g')" by blast
  have "mset (shuffleIds n (map p_id PIECE_DEFINITIONS)) = mset (map p_id PIECE_DEFINITIONS)"
    using assms(2) by (simp add: shuffled_ids)
  from full_solution_props[OF assms(1) this run] show ?thesis .
qed

theorem generateValidBoard_tiles_board_witness:
  "validTable (map_of catalogVariations) \<and> (\<forall>k. shuffleOutcome (alwaysGood k))
   \<and> generateValidBoard (map_of catalogVariations) alwaysGood 0 (Suc 0) = Inr goodSolution
   \<and> length goodSolution = 12
   \<and> distinct (map pid goodSolution)
   \<and> (\<Union>p \<in> set goodSolution. set (absCells p)) = {(a, b). 0 \<le> a \<and> a < 11 \<and> 0 \<le> b \<and> b < 5}"
proof -
  have h1: "validTable (map_of catalogVariations)" by (rule validTable_catalog)
  have h2: "\<forall>k. shuffleOutcome (alwaysGood k)"
    by (simp add: alwaysGood_def shuffleTo_outcome)
  have h3: "generateValidBoard (map_of catalogVariations) alwaysGood 0 (Suc 0) = Inr goodSolution"
    by (simp add: alwaysGood_def shuffleTo_ids goodOrder_run)
  from generateValidBoard_tiles_board[OF h1 h2 h3] h1 h2 h3 show ?thesis by blast
qed

text \<open>
  Claim C4.  Round trip.  For every solution that \<open>solveRecursively\<close> returns, the returned
  records are, in order, the records that the search built along its grids
  (\<open>searchChain\<close>): the first from a variation placed at the first empty cell of the grid
  given, each next one at the first empty cell of the grid as marked so far, and the grid
  returned is the last of these grids.  Replaying a record through
  \<open>getTransformedCoordinates\<close> and its stored origin, as \<open>getBoardGrid\<close> does, gives exactly
  the cells that the search marked at the step of this record.  Hence (\<open>tiling\<close>) the
  replayed cells of the records are pairwise disjoint, inside the grid and free in the
  grid given, and the grid returned is the grid given with exactly these cells occupied.
  The records are those of the remaining pieces, in their order, all of them unless the
  grid is full before.
\<close>

theorem solveRecursively_round_trip:
  assumes "wf_grid grid" and "validTable V"
    and "solveRecursively V grid remainingPieceIds = Inr (Some solution, grid')"
  shows "searchChain V grid solution grid'
    \<and> tiling grid solution grid'
    \<and> (\<exists>rest. remainingPieceIds = map pid solution @ rest
           \<and> (rest = [] \<or> occ grid' = {c. inBounds c}))"
  using solve_success(1)[OF assms] by (simp add: solved_def)

theorem solveRecursively_round_trip_witness:
  "wf_grid emptyGrid \<and> validTable (map_of catalogVariations)
   \<and> solveRecursively (map_of catalogVariations) emptyGrid goodOrder
        = Inr (Some goodSolution, fullGrid)
   \<and> searchChain (map_of catalogVariations) emptyGrid goodSolution fullGrid
   \<and> tiling emptyGrid goodSolution fullGrid
   \<and> goodOrder = map pid goodSolution"
proof -
  have "goodOrder = map pid goodSolution"
    by (simp add: goodOrder_def goodSolution_def mkP_def)
  with solveRecursively_round_trip[OF wf_emptyGrid validTable_catalog goodOrder_run]
    wf_emptyGrid validTable_catalog goodOrder_run
  show ?thesis by blast
qed

section \<open>The retry of generateValidBoard\<close>

lemma alwaysBad_fails:
  "solveRecursively (map_of catalogVariations) emptyGrid (alwaysBad j (map p_id PIECE_DEFINITIONS))
     = Inr (None, emptyGrid)"
  by (simp add: alwaysBad_def shuffleTo_ids badOrder_run)

lemma badUntil_fails:
  "j < n \<Longrightarrow>
     solveRecursively (map_of catalogVariations) emptyGrid
       (badUntil n j (map p_id PIECE_DEFINITIONS)) = Inr (None, emptyGrid)"
  by (simp add: badUntil_def shuffleTo_ids badOrder_run)

lemma badUntil_solves:
  "solveRecursively (map_of catalogVariations) emptyGrid
     (badUntil n n (map p_id PIECE_DEFINITIONS)) = Inr (Some goodSolution, fullGrid)"
  by (simp add: badUntil_def shuffleTo_ids goodOrder_run)

lemma shuffle_outcomes:
  "shuffleOutcome (alwaysBad k)" "shuffleOutcome (alwaysGood k)" "shuffleOutcome (badUntil n k)"
  by (simp_all add: alwaysBad_def alwaysGood_def badUntil_def shuffleTo_outcome)

text \<open>
  Claim C3 does not hold as stated: no number caps the retries.  With the cache in its
  unshuffled order the solver finds no solution for the order \<open>badOrder\<close> of the pieces.
  For every \<open>n\<close>, when the first \<open>n\<close> shuffles have this outcome and the next one is
  solvable, \<open>generateValidBoard\<close> makes \<open>n\<close> retries and returns the board, provided the
  stack has room for the \<open>n + 1\<close> nested calls; when it has room for \<open>n\<close> only, what the
  caller gets is the engine's \<open>RangeError\<close>.
\<close>

theorem generateValidBoard_no_cap_counterexample:
  "validTable (map_of catalogVariations)
   \<and> (\<forall>n k. shuffleOutcome (badUntil n k))
   \<and> (\<forall>n. generateValidBoard (map_of catalogVariations) (badUntil n) 0 (Suc n)
             = Inr goodSolution)
   \<and> (\<forall>n. generateValidBoard (map_of catalogVariations) (badUntil n) 0 n = Inl RangeError)"
proof -
  have "generateValidBoard (map_of catalogVariations) (badUntil n) 0 (Suc n) = Inr goodSolution"
    for n
    by (rule generateValidBoard_finds[where n = n and g' = fullGrid])
      (simp_all add: badUntil_fails badUntil_solves)
  moreover
  have "generateValidBoard (map_of catalogVariations) (badUntil n) 0 n = Inl RangeError" for n
    by (rule generateValidBoard_exhausts) (simp add: badUntil_fails)
  ultimately show ?thesis
    using validTable_catalog shuffle_outcomes(3) by blast
qed

text \<open>
  Claim C3, amended.  \<open>generateValidBoard\<close> has no retry counter and no failure value of its
  own: when the solver finds no solution for a shuffled order, it calls itself with a
  fresh shuffle.  It returns the first solution found when the call stack has room for
  the nested calls made until then, whatever their number; when the stack is exhausted
  first, the engine's \<open>RangeError\<close> reaches the caller, and with the catalog's cache and ids
  no other failure does.
\<close>

theorem generateValidBoard_retries_to_stack_limit:
  "((\<forall>j < n. \<exists>g. solveRecursively V emptyGrid (shuffleIds j (map p_id PIECE_DEFINITIONS))
                    = Inr (None, g))
     \<and> solveRecursively V emptyGrid (shuffleIds n (map p_id PIECE_DEFINITIONS))
          = Inr (Some s, g')
     \<and> n < stackLeft
     \<longrightarrow> generateValidBoard V shuffleIds 0 stackLeft = Inr s)
   \<and> ((\<forall>j < stackLeft. \<exists>g. solveRecursively V emptyGrid
                               (shuffleIds j (map p_id PIECE_DEFINITIONS)) = Inr (None, g))
     \<longrightarrow> generateValidBoard V shuffleIds 0 stackLeft = Inl RangeError)
   \<and> (validTable V \<and> (\<forall>k. shuffleOutcome (shuffleIds k))
       \<and> generateValidBoard V shuffleIds 0 stackLeft = Inl e
     \<longrightarrow> e = RangeError)"
  using generateValidBoard_finds[of n V shuffleIds s g' stackLeft]
    generateValidBoard_exhausts[of stackLeft V shuffleIds]
    generateValidBoard_error[of V shuffleIds 0 stackLeft e]
  by blast

theorem generateValidBoard_retries_to_stack_limit_witness:
  "solveRecursively (map_of catalogVariations) emptyGrid
        (badUntil 1 0 (map p_id PIECE_DEFINITIONS)) = Inr (None, emptyGrid)
   \<and> solveRecursively (map_of catalogVariations) emptyGrid
        (badUntil 1 1 (map p_id PIECE_DEFINITIONS)) = Inr (Some goodSolution, fullGrid)
   \<and> generateValidBoard (map_of catalogVariations) (badUntil 1) 0 2 = Inr goodSolution
   \<and> solveRecursively (map_of catalogVariations) emptyGrid
        (alwaysBad 2 (map p_id PIECE_DEFINITIONS)) = Inr (None, emptyGrid)
   \<and> validTable (map_of catalogVariations) \<and> (\<forall>k. shuffleOutcome (alwaysBad k))
   \<and> generateValidBoard (map_of catalogVariations) alwaysBad 0 3 = Inl RangeError"
proof -
  have h1: "\<forall>j < 1. \<exists>g. solveRecursively (map_of catalogVariations) emptyGrid
                    (badUntil 1 j (map p_id PIECE_DEFINITIONS)) = Inr (None, g)"
    by (simp add: badUntil_fails)
  have h2: "solveRecursively (map_of catalogVariations) emptyGrid
        (badUntil 1 1 (map p_id PIECE_DEFINITIONS)) = Inr (Some goodSolution, fullGrid)"
    by (rule badUntil_solves)
  have h3: "\<forall>j < 3. \<exists>g. solveRecursively (map_of catalogVariations) emptyGrid
                    (alwaysBad j (map p_id PIECE_DEFINITIONS)) = Inr (None, g)"
    using alwaysBad_fails by blast
  have h4: "\<forall>k. shuffleOutcome (alwaysBad k)"
    by (simp add: shuffle_outcomes)
  from generateValidBoard_retries_to_stack_limit
         [of 1 "map_of catalogVariations" "badUntil 1" goodSolution fullGrid 2 RangeError]
       h1 h2
  have r1: "generateValidBoard (map_of catalogVariations) (badUntil 1) 0 2 = Inr goodSolution"
    by simp
  from generateValidBoard_retries_to_stack_limit
         [of 0 "map_of catalogVariations" alwaysBad goodSolution fullGrid 3 RangeError]
       h3
  have r2: "generateValidBoard (map_of catalogVariations) alwaysBad 0 3 = Inl RangeError"
    by blast
  from r1 r2 h2 h4 validTable_catalog alwaysBad_fails[of 2] badUntil_fails[of 0 1]
  show ?thesis by simp
qed

lemma normShape_fun:
  "normShape i = (\<lambda>(flipped, rot). normalizeCoords (getTransformedCoordinates i rot flipped))"
  by (rule ext) (simp add: normShape_def)

lemma half_turn_eval:
  "list_all (\<lambda>d. normShape (p_id d) (False, 180) = normShape (p_id d) (False, 0)
                  \<longrightarrow> map_sum id length (variationsOf d) = Inr 4) PIECE_DEFINITIONS"
  by code_simp

lemma precompute_variations:
  assumes "\<forall>i. shuffleOutcome (rnd i)" "d \<in> set PIECE_DEFINITIONS"
  shows "\<exists>V vs. precomputeVariations rnd = Inr V \<and> V (p_id d) = Some vs
     \<and> 1 \<le> length vs \<and> length vs \<le> 8
     \<and> distinct (map coords vs)
     \<and> length vs = card (normShape (p_id d) ` ({False, True} \<times> {0, 90, 180, 270}))
     \<and> (normShape (p_id d) (False, 180) = normShape (p_id d) (False, 0) \<longrightarrow> length vs = 4)"
proof -
  obtain V where V: "precomputeVariations rnd = Inr V"
    using precompute_ok by blast
  from precompute_entries(1)[OF V assms(2)] obtain vs'
    where vs': "variationsOf d = Inr vs'" "V (p_id d) = Some (rnd (p_id d) vs')" by auto
  let ?vs = "rnd (p_id d) vs'"
  from assms(1) have m: "mset ?vs = mset vs'" by (simp add: shuffleOutcome_def)
  then have len: "length ?vs = length vs'" by (rule mset_eq_length)
  have card: "length vs' = card (normShape (p_id d) ` ({False, True} \<times> {0, 90, 180, 270}))"
    using variationsOf_length[OF vs'(1)] by (simp add: set_orientations)
  have bounds: "1 \<le> length vs' \<and> length vs' \<le> 8"
    using card_normShape_bounds[of "p_id d"] variationsOf_length[OF vs'(1)] by simp
  have "mset (map coords ?vs) = mset (map coords vs')" using m by simp
  then have dist: "distinct (map coords ?vs)"
    using mset_eq_imp_distinct_iff variationsOf_Inr(1)[OF vs'(1)] by blast
  have "normShape (p_id d) (False, 180) = normShape (p_id d) (False, 0) \<longrightarrow> length vs' = 4"
    using half_turn_eval assms(2) vs'(1) by (auto simp: list_all_iff)
  with V vs'(2) len card bounds dist show ?thesis by auto
qed

text \<open>
  Claim C6.  For every piece of the catalog, the variation list that \<open>precomputeVariations\<close>
  stores has between 1 and 8 entries, no two entries have equal normalized coordinate
  sequences, and the number of entries is the number of distinct normalized shapes among
  the 8 combinations of flip and rotation; a piece whose normalized shape is the same
  after a rotation by 180 degrees has exactly 4.
\<close>
theorem precomputeVariations_orbit:
  assumes "\<forall>i. shuffleOutcome (rnd i)" and "d \<in> set PIECE_DEFINITIONS"
  shows "\<exists>V vs. precomputeVariations rnd = Inr V \<and> V (p_id d) = Some vs
     \<and> 1 \<le> length vs \<and> length vs \<le> 8
     \<and> distinct (map coords vs)
     \<and> length vs =
         card ((\<lambda>(flipped, rot). normalizeCoords (getTransformedCoordinates (p_id d) rot flipped))
                 ` ({False, True} \<times> {0, 90, 180, 270}))
     \<and> (normalizeCoords (getTransformedCoordinates (p_id d) 180 False)
          = normalizeCoords (getTransformedCoordinates (p_id d) 0 False) \<longrightarrow> length vs = 4)"
  using precompute_variations[OF assms] unfolding normShape_fun by simp

lemma pieceK_facts:
  "pieceK \<in> set PIECE_DEFINITIONS"
  "normalizeCoords (getTransformedCoordinates (p_id pieceK) 180 False)
     = normalizeCoords (getTransformedCoordinates (p_id pieceK) 0 False)"
  by code_simp+

theorem precomputeVariations_orbit_witness:
  "(\<forall>i. shuffleOutcome (reverseAll i)) \<and> pieceK \<in> set PIECE_DEFINITIONS
   \<and> normalizeCoords (getTransformedCoordinates (p_id pieceK) 180 False)
       = normalizeCoords (getTransformedCoordinates (p_id pieceK) 0 False)
   \<and> (\<exists>V vs. precomputeVariations reverseAll = Inr V \<and> V (p_id pieceK) = Some vs
         \<and> length vs = 4 \<and> distinct (map coords vs))"
proof -
  have h1: "\<forall>i. shuffleOutcome (reverseAll i)"
    by (simp add: reverseAll_def shuffleOutcome_def)
  from precomputeVariations_orbit[OF h1 pieceK_facts(1)] pieceK_facts h1
  show ?thesis by blast
qed

section \<open>Levels\<close>

text \<open>
  The value that \<open>lockedCountOf\<close> rounds is at least \<open>1/198\<close> away from every half-integer,
  so the rounding of a double computation of it cannot fall on the other side.
\<close>

lemma lockedCount_off_half:
  "1 / 198 \<le> \<bar>10 - (of_int (levelNum - 1) / 99) * (10 - 3) - (of_int k + 1 / 2) :: rat\<bar>"
proof -
  let ?m = "1881 - 14 * (levelNum - 1) - 198 * k"
  have "?m \<noteq> 0"
  proof
    assume "?m = 0"
    then have "(1881 :: int) = 2 * (7 * (levelNum - 1) + 99 * k)" by simp
    then have "even (1881 :: int)" by (metis dvd_triv_left)
    then show False by simp
  qed
  then have "1 \<le> \<bar>?m\<bar>" by linarith
  then have "(of_int 1 :: rat) \<le> of_int \<bar>?m\<bar>"
    by (simp only: of_int_le_iff)
  then have "(1 :: rat) \<le> \<bar>of_int ?m\<bar>"
    by simp
  then have "1 / 198 \<le> \<bar>of_int ?m :: rat\<bar> / 198"
    by (simp add: divide_le_cancel)
  moreover have "(10 - (of_int (levelNum - 1) / 99) * (10 - 3) - (of_int k + 1 / 2) :: rat)
      = of_int ?m / 198"
    by (simp add: field_simps)
  ultimately show ?thesis
    by (simp only: abs_divide)
qed








section \<open>Termination of the solver\<close>

lemma tryVariations_dom:
  assumes "\<And>g. solveRecursively_tryVariations_dom (Inl (V, g, restIds))"
  shows "solveRecursively_tryVariations_dom (Inr (V, g, pieceId, restIds, emptyX, emptyY, vs))"
proof (induction vs arbitrary: g)
  case Nil
  show ?case by (rule solveRecursively_tryVariations.domintros(3))
next
  case (Cons v vs)
  show ?case
    by (rule solveRecursively_tryVariations.domintros(4)) (rule assms Cons.IH)+
qed

lemma solveRecursively_dom: "solveRecursively_tryVariations_dom (Inl (V, g, ids))"
proof (induction ids arbitrary: g)
  case Nil
  show ?case by (rule solveRecursively_tryVariations.domintros(1))
next
  case (Cons pieceId restIds)
  show ?case
    by (rule solveRecursively_tryVariations.domintros(2)) (rule tryVariations_dom, rule Cons.IH)
qed

text \<open>
  Claim C8.  \<open>solveRecursively\<close> terminates on every table, grid and list of piece ids:
  every argument triple is in the domain of the recursion, and each recursive call has a
  smaller rank than its caller, the number of remaining pieces first and the number of
  variations still to try second.
\<close>

theorem solveRecursively_terminates:
  "solveRecursively_tryVariations_dom (Inl (V, grid, remainingPieceIds))
   \<and> (solveRecursively_tryVariations_rel callee caller \<longrightarrow> callRank callee < callRank caller)"
proof
  show "solveRecursively_tryVariations_dom (Inl (V, grid, remainingPieceIds))"
    by (rule solveRecursively_dom)
  show "solveRecursively_tryVariations_rel callee caller \<longrightarrow> callRank callee < callRank caller"
    by (auto elim!: solveRecursively_tryVariations_rel.cases)
qed

lemma findEmpty_emptyGrid: "findEmpty emptyGrid = Some (0, 0)"
  by code_simp

theorem solveRecursively_terminates_witness:
  "solveRecursively_tryVariations_rel
     (Inr (map_of catalogVariations, emptyGrid, ''L'', [''J''], 0, 0,
           the (map_of catalogVariations ''L'')))
     (Inl (map_of catalogVariations, emptyGrid, [''L'', ''J'']))
   \<and> callRank (Inr (map_of catalogVariations, emptyGrid, ''L'', [''J''], 0, 0,
           the (map_of catalogVariations ''L'')))
       < callRank (Inl (map_of catalogVariations, emptyGrid, [''L'', ''J'']))"
proof -
  have "map_of catalogVariations ''L'' = Some (the (map_of catalogVariations ''L''))"
    by code_simp
  then have h: "solveRecursively_tryVariations_rel
     (Inr (map_of catalogVariations, emptyGrid, ''L'', [''J''], 0, 0,
           the (map_of catalogVariations ''L'')))
     (Inl (map_of catalogVariations, emptyGrid, [''L'', ''J'']))"
    by (intro solveRecursively_tryVariations_rel.intros(1)[OF findEmpty_emptyGrid]) simp_all
  from solveRecursively_terminates
    [of "map_of catalogVariations" emptyGrid "[''L'', ''J'']"
        "Inr (map_of catalogVariations, emptyGrid, ''L'', [''J''], 0, 0,
           the (map_of catalogVariations ''L''))"
        "Inl (map_of catalogVariations, emptyGrid, [''L'', ''J''])"] h
  show ?thesis by blast
qed

end
